theory Spec2Isabelle
  imports Complex_Main "HOL-Library.AList"
begin

section \<open>Python values\<close>

text \<open>
  A Python \<open>str\<close> is a sequence of Unicode code points. The program upper-cases single
  characters with \<open>str.upper\<close>, whose result for a code point outside ASCII can be an
  ASCII letter (U+0131 and U+017F) or two characters (U+00DF), so characters are code
  points here, not bytes. \<open>str s\<close> reads an ASCII literal as such a string.
  Floats are modelled as real numbers: rounding and overflow are not modelled.
\<close>

type_synonym pystr = "nat list"

abbreviation str :: "string \<Rightarrow> pystr" where
  "str s \<equiv> map of_char s"

text \<open>
  A \<open>dict\<close> is an association list with distinct keys, in insertion order:
  \<open>k in d\<close> and \<open>d[k]\<close> are \<open>map_of d k\<close>, and \<open>d[k] = v\<close> is \<open>AList.update k v d\<close>.
\<close>

type_synonym ('k, 'v) dict = "('k \<times> 'v) list"

datatype py_error = ZeroDivisionError | ValueError | KeyError | TypeError

text \<open>
  The methods of Python's standard library the program calls. They are not part of the
  repository, so the model takes them as a parameter \<open>L\<close>; the theorems hold for every
  \<open>L\<close>, under the facts about ASCII they state.
  \<^item> \<open>str_upper\<close>, \<open>str_lower\<close>, \<open>str_isupper\<close>: \<open>s.upper()\<close>, \<open>s.lower()\<close>, \<open>s.isupper()\<close>;
  \<^item> \<open>str_split\<close>, \<open>str_strip\<close>: \<open>s.split()\<close>, \<open>s.strip()\<close>;
  \<^item> \<open>int_of_str\<close>: \<open>int(s)\<close>, \<open>None\<close> where it raises ValueError;
  \<^item> \<open>sha256_hexdigest\<close>: \<open>hashlib.sha256(bytes).hexdigest()\<close>.
\<close>

record pylib =
  str_upper :: "pystr \<Rightarrow> pystr"
  str_lower :: "pystr \<Rightarrow> pystr"
  str_isupper :: "pystr \<Rightarrow> bool"
  str_split :: "pystr \<Rightarrow> pystr list"
  str_strip :: "pystr \<Rightarrow> pystr"
  int_of_str :: "pystr \<Rightarrow> int option"
  sha256_hexdigest :: "nat list \<Rightarrow> pystr"

section \<open>decrypt (caesar_shift/main.py, lines 30-40)\<close>

text \<open>
  \<^verbatim>\<open>
  def decrypt(ciphertext, key_mapping):
      result = ""
      for char in ciphertext:
          if char.upper() in key_mapping:
              dec_char = key_mapping[char.upper()]
              result += dec_char if char.isupper() else dec_char.lower()
          else:
              result += char
      return result
  \<close>
\<close>

definition decrypt_char :: "pylib \<Rightarrow> (pystr, pystr) dict \<Rightarrow> nat \<Rightarrow> pystr" where
  "decrypt_char L key_mapping char =
     (case map_of key_mapping (str_upper L [char]) of
        Some dec_char \<Rightarrow> if str_isupper L [char] then dec_char else str_lower L dec_char
      | None \<Rightarrow> [char])"

definition decrypt :: "pylib \<Rightarrow> pystr \<Rightarrow> (pystr, pystr) dict \<Rightarrow> pystr" where
  "decrypt L ciphertext key_mapping =
     foldl (\<lambda>result char. result @ decrypt_char L key_mapping char) [] ciphertext"

section \<open>QuadgramScorer (caesar_shift/main.py, lines 44-81)\<close>

record QuadgramScorer =
  quadgrams :: "(pystr, int) dict"
  total_s :: int
  log_prob :: "(pystr, real) dict"
  floor_s :: real

definition default_quadgrams :: "(pystr, int) dict" where
  "default_quadgrams =
     [(str ''THEN'', 10), (str ''THER'', 9), (str ''TION'', 8), (str ''HERE'', 7),
      (str ''THAT'', 7), (str ''ATIO'', 6), (str ''NDTH'', 5), (str ''THEM'', 5)]"

text \<open>
  The loop over the lines of \<open>quadgrams.txt\<close>: a line of two fields stores
  \<open>int(parts[1])\<close> under \<open>parts[0]\<close> (a later line for the same token replaces the
  count), any other line is skipped, and a count that \<open>int\<close> rejects raises ValueError.
\<close>

fun load_lines :: "pylib \<Rightarrow> (pystr, int) dict \<Rightarrow> pystr list \<Rightarrow> py_error + (pystr, int) dict" where
  "load_lines L q [] = Inr q"
| "load_lines L q (line # f) =
     (let parts = str_split L line in
      if length parts = 2 then
        (case int_of_str L (parts ! 1) of
           None \<Rightarrow> Inl ValueError
         | Some n \<Rightarrow> load_lines L (AList.update (parts ! 0) n q) f)
      else load_lines L q f)"

text \<open>
  The loop \<open>for key in self.quadgrams: self.log_prob[key] = math.log10(float(...) / self.total)\<close>.
  The division raises ZeroDivisionError when the total is 0, and \<open>math.log10\<close> raises
  ValueError on an argument that is not positive.
\<close>

fun log_probs :: "int \<Rightarrow> (pystr, real) dict \<Rightarrow> (pystr, int) dict \<Rightarrow> py_error + (pystr, real) dict" where
  "log_probs t lp [] = Inr lp"
| "log_probs t lp ((key, n) # rest) =
     (if t = 0 then Inl ZeroDivisionError
      else if real_of_int n / real_of_int t \<le> 0 then Inl ValueError
      else log_probs t (AList.update key (log 10 (real_of_int n / real_of_int t)) lp) rest)"

text \<open>
  \<open>__init__\<close>: the argument is the content of \<open>quadgrams.txt\<close> as its list of lines, or
  \<open>None\<close> when the file does not exist.
\<close>

definition QuadgramScorer_init :: "pylib \<Rightarrow> pystr list option \<Rightarrow> py_error + QuadgramScorer" where
  "QuadgramScorer_init L qfile =
     (case (case qfile of Some f \<Rightarrow> load_lines L [] f | None \<Rightarrow> Inr default_quadgrams) of
        Inl e \<Rightarrow> Inl e
      | Inr q \<Rightarrow>
         (let t = sum_list (map snd q) in
          case log_probs t [] q of
            Inl e \<Rightarrow> Inl e
          | Inr lp \<Rightarrow>
             if t = 0 then Inl ZeroDivisionError
             else if 0.01 / real_of_int t \<le> 0 then Inl ValueError
             else Inr \<lparr>quadgrams = q, total_s = t, log_prob = lp,
                       floor_s = log 10 (0.01 / real_of_int t)\<rparr>))"

text \<open>
  \<^verbatim>\<open>
  def score(self, text):
      text = text.upper().replace(" ", "")
      score = 0
      for i in range(len(text) - 3):
          quad = text[i:i+4]
          if quad in self.log_prob:
              score += self.log_prob[quad]
          else:
              score += self.floor
      return score
  \<close>
  \<open>range(len(text) - 3)\<close> is empty when the text has fewer than 4 characters, as
  \<open>[0..<length text - 3]\<close> is. Nothing here can raise, so the result is a number.
\<close>

definition score :: "pylib \<Rightarrow> QuadgramScorer \<Rightarrow> pystr \<Rightarrow> real" where
  "score L self text0 =
     (let text = filter (\<lambda>c. c \<noteq> 32) (str_upper L text0) in
      foldl (\<lambda>score i.
               let quad = take 4 (drop i text) in
               case map_of (log_prob self) quad of
                 Some v \<Rightarrow> score + v
               | None \<Rightarrow> score + floor_s self)
        0 [0..<length text - 3])"

section \<open>hill_climb (caesar_shift/main.py, lines 85-118)\<close>

definition alphabet :: pystr where
  "alphabet = str ''ABCDEFGHIJKLMNOPQRSTUVWXYZ''"

text \<open>
  The dict comprehension \<open>{key[i]: alphabet[i] for i in range(26)}\<close>: keys and values
  are one-character strings, and a repeated key keeps its last value.
\<close>

definition key_mapping :: "pystr \<Rightarrow> (pystr, pystr) dict" where
  "key_mapping key = foldl (\<lambda>m i. AList.update [key ! i] [alphabet ! i] m) [] [0..<26]"

text \<open>
  The random choices of one run are an input of the model: \<open>shuffled\<close> is the list
  \<open>random.shuffle\<close> leaves behind, \<open>sampled i\<close> the pair \<open>random.sample(range(26), 2)\<close>
  returns in iteration \<open>i\<close>. The library's contracts are \<open>shuffle_ok\<close> (a rearrangement
  of the alphabet) and \<open>swap_ok\<close> (two distinct positions below 26). Under them every
  key has 26 characters and every index below is in range, so no IndexError can arise;
  the library returns nothing else, and the model is not meant for other choices. Where
  a theorem needs the contracts, they are its hypotheses.
\<close>

record draws =
  shuffled :: pystr
  sampled :: "nat \<Rightarrow> nat \<times> nat"

definition shuffle_ok :: "pystr \<Rightarrow> bool" where
  "shuffle_ok key \<longleftrightarrow> distinct key \<and> set key = set alphabet"

definition swap_ok :: "nat \<times> nat \<Rightarrow> bool" where
  "swap_ok ab \<longleftrightarrow> fst ab < 26 \<and> snd ab < 26 \<and> fst ab \<noteq> snd ab"

definition draws_ok :: "draws \<Rightarrow> nat \<Rightarrow> bool" where
  "draws_ok d n \<longleftrightarrow> shuffle_ok (shuffled d) \<and> list_all swap_ok (map (sampled d) [0..<n])"

text \<open>
  \<open>new_key_list[a], new_key_list[b] = new_key_list[b], new_key_list[a]\<close> on a copy of
  the current key.
\<close>

definition new_key_of :: "pystr \<Rightarrow> nat \<times> nat \<Rightarrow> pystr" where
  "new_key_of current_key ab =
     (case ab of (a, b) \<Rightarrow> current_key[a := current_key ! b, b := current_key ! a])"

record hc_state =
  best_key :: pystr
  best_score :: real
  current_key :: pystr
  current_score :: real

definition hc_init :: "pylib \<Rightarrow> pystr \<Rightarrow> QuadgramScorer \<Rightarrow> draws \<Rightarrow> hc_state" where
  "hc_init L ciphertext scorer d =
     (let key0 = shuffled d;
          best_mapping = key_mapping key0;
          best_decryption = decrypt L ciphertext best_mapping;
          score0 = score L scorer best_decryption
      in \<lparr>best_key = key0, best_score = score0, current_key = key0, current_score = score0\<rparr>)"

text \<open>The candidate of one iteration and its score, then the body of the loop.\<close>

definition new_score_of :: "pylib \<Rightarrow> pystr \<Rightarrow> QuadgramScorer \<Rightarrow> pystr \<Rightarrow> real" where
  "new_score_of L ciphertext scorer new_key =
     (let new_mapping = key_mapping new_key;
          new_decryption = decrypt L ciphertext new_mapping
      in score L scorer new_decryption)"

definition hc_step :: "pylib \<Rightarrow> pystr \<Rightarrow> QuadgramScorer \<Rightarrow> hc_state \<Rightarrow> nat \<times> nat \<Rightarrow> hc_state" where
  "hc_step L ciphertext scorer st ab =
     (let new_key = new_key_of (current_key st) ab;
          new_score = new_score_of L ciphertext scorer new_key
      in if new_score > current_score st then
           (let st1 = st\<lparr>current_key := new_key, current_score := new_score\<rparr> in
            if current_score st1 > best_score st1
            then st1\<lparr>best_score := current_score st1, best_key := current_key st1\<rparr>
            else st1)
         else st)"

text \<open>The state after the first \<open>n\<close> iterations of the loop.\<close>

definition hc_loop :: "pylib \<Rightarrow> pystr \<Rightarrow> QuadgramScorer \<Rightarrow> draws \<Rightarrow> nat \<Rightarrow> hc_state" where
  "hc_loop L ciphertext scorer d n =
     foldl (hc_step L ciphertext scorer) (hc_init L ciphertext scorer d) (map (sampled d) [0..<n])"

text \<open>
  \<open>for _ in range(max_iter)\<close> runs \<open>max_iter\<close> times, and not at all for a negative
  \<open>max_iter\<close>: \<open>nat max_iter\<close> iterations.
\<close>

definition hill_climb ::
  "pylib \<Rightarrow> pystr \<Rightarrow> QuadgramScorer \<Rightarrow> draws \<Rightarrow> int \<Rightarrow> pystr \<times> (pystr, pystr) dict \<times> real" where
  "hill_climb L ciphertext scorer d max_iter =
     (let st = hc_loop L ciphertext scorer d (nat max_iter);
          final_mapping = key_mapping (best_key st)
      in (decrypt L ciphertext final_mapping, final_mapping, best_score st))"

section \<open>solve_substitution (caesar_shift/main.py, lines 120-133)\<close>

text \<open>
  \<open>best_overall_score\<close> starts as \<open>-float('inf')\<close>, the other two as \<open>None\<close>. A score is
  a finite float, and every finite float is greater than \<open>-inf\<close>.
\<close>

datatype pyfloat = NegInf | Fin real

fun float_gt :: "real \<Rightarrow> pyfloat \<Rightarrow> bool" where
  "float_gt s NegInf = True"
| "float_gt s (Fin b) = (s > b)"

type_synonym solved = "pystr option \<times> (pystr, pystr) dict option \<times> pyfloat"

definition solve_step ::
  "pylib \<Rightarrow> pystr \<Rightarrow> QuadgramScorer \<Rightarrow> (nat \<Rightarrow> draws) \<Rightarrow> int \<Rightarrow> solved \<Rightarrow> nat \<Rightarrow> solved" where
  "solve_step L ciphertext scorer rng iterations best r =
     (case best of (best_overall_decryption, best_overall_mapping, best_overall_score) \<Rightarrow>
      case hill_climb L ciphertext scorer (rng r) iterations of (decryption, mapping, score1) \<Rightarrow>
        if float_gt score1 best_overall_score
        then (Some decryption, Some mapping, Fin score1)
        else best)"

text \<open>\<open>rng r\<close> are the random choices of restart \<open>r\<close>.\<close>

definition solve_substitution ::
  "pylib \<Rightarrow> pystr \<Rightarrow> QuadgramScorer \<Rightarrow> (nat \<Rightarrow> draws) \<Rightarrow> int \<Rightarrow> int \<Rightarrow> solved" where
  "solve_substitution L ciphertext scorer rng restarts iterations =
     foldl (solve_step L ciphertext scorer rng iterations) (None, None, NegInf) [0..<nat restarts]"

section \<open>main and the cache (caesar_shift/main.py, lines 22-28 and 137-183)\<close>

text \<open>
  The values \<open>json.load\<close> returns and \<open>json.dump\<close> writes. The cache file is a JSON
  object from hex digests to entries; an entry that \<open>main\<close> wrote is an object with the
  fields \<open>decrypted_text\<close>, \<open>mapping\<close> and \<open>score\<close>, an entry found in the file can be any
  value.
\<close>

datatype pyval =
  PNone | PBool bool | PNum pyfloat | PStr pystr | PList "pyval list" | PDict "(pystr \<times> pyval) list"

text \<open>\<open>v[k]\<close> for a string \<open>k\<close>: only a dict can be indexed by a string.\<close>

fun getitem :: "pyval \<Rightarrow> pystr \<Rightarrow> py_error + pyval" where
  "getitem (PDict d) k = (case map_of d k of Some v \<Rightarrow> Inr v | None \<Rightarrow> Inl KeyError)"
| "getitem v k = Inl TypeError"

text \<open>\<open>f.write(v)\<close> on a text file: only a string can be written.\<close>

fun write_text :: "pyval \<Rightarrow> py_error + pystr" where
  "write_text (PStr s) = Inr s"
| "write_text v = Inl TypeError"

fun opt_str :: "pystr option \<Rightarrow> pyval" where
  "opt_str None = PNone"
| "opt_str (Some s) = PStr s"

fun opt_mapping :: "(pystr, pystr) dict option \<Rightarrow> pyval" where
  "opt_mapping None = PNone"
| "opt_mapping (Some m) = PDict (map (\<lambda>(k, v). (k, PStr v)) m)"

text \<open>
  The input file: its bytes, which \<open>compute_file_hash\<close> reads, and the text
  \<open>open(input_file, 'r').read()\<close> decodes from them.
\<close>

record input_file =
  raw_bytes :: "nat list"
  text_of :: pystr

definition compute_file_hash :: "pylib \<Rightarrow> input_file \<Rightarrow> pystr" where
  "compute_file_hash L f = sha256_hexdigest L (raw_bytes f)"

text \<open>
  What a run of \<open>main\<close> leaves behind: the content of \<open>decryption_cache.json\<close> (\<open>None\<close>
  when the file does not exist), the text written to the output file, and how often the
  run called \<open>solve_substitution\<close>.
\<close>

record main_result =
  cache_file :: "(pystr, pyval) dict option"
  output_file :: pystr
  solve_calls :: nat

text \<open>
  \<open>main\<close> from the computation of the hash on. Its inputs are the input file, the lines
  of \<open>quadgrams.txt\<close> (\<open>None\<close>: no such file), the parsed content of the cache file
  (\<open>None\<close>: no such file) and the random choices. An exception ends the run: \<open>Inl\<close>.
  The messages printed and the check of the command line are left out. With its 20
  restarts \<open>solve_substitution\<close> returns a text, so the branch where \<open>f.write\<close>
  is handed \<open>None\<close> is never taken.
\<close>

definition main ::
  "pylib \<Rightarrow> input_file \<Rightarrow> pystr list option \<Rightarrow> (pystr, pyval) dict option \<Rightarrow> (nat \<Rightarrow> draws)
     \<Rightarrow> py_error + main_result" where
  "main L input quadgrams_txt cache_json rng =
     (let file_hash = compute_file_hash L input;
          cache = (case cache_json of Some c \<Rightarrow> c | None \<Rightarrow> [])
      in case map_of cache file_hash of
           Some result \<Rightarrow>
             (case getitem result (str ''decrypted_text'') of
                Inl e \<Rightarrow> Inl e
              | Inr decrypted_text \<Rightarrow>
                 (case write_text decrypted_text of
                    Inl e \<Rightarrow> Inl e
                  | Inr out \<Rightarrow>
                     Inr \<lparr>cache_file = cache_json, output_file = out, solve_calls = 0\<rparr>))
         | None \<Rightarrow>
             (let ciphertext = str_strip L (text_of input) in
              case QuadgramScorer_init L quadgrams_txt of
                Inl e \<Rightarrow> Inl e
              | Inr scorer \<Rightarrow>
                 (case solve_substitution L ciphertext scorer rng 20 1000 of
                    (decrypted_text, mapping, score1) \<Rightarrow>
                      (let cache1 = AList.update file_hash
                             (PDict [(str ''decrypted_text'', opt_str decrypted_text),
                                     (str ''mapping'', opt_mapping mapping),
                                     (str ''score'', PNum score1)]) cache
                       in case write_text (opt_str decrypted_text) of
                            Inl e \<Rightarrow> Inl e
                          | Inr out \<Rightarrow>
                             Inr \<lparr>cache_file = Some cache1, output_file = out,
                                  solve_calls = 1\<rparr>))))"

section \<open>Notions the statements use\<close>

subsection \<open>Letters and the casing of ASCII text\<close>

definition is_upper_letter :: "nat \<Rightarrow> bool" where
  "is_upper_letter c \<longleftrightarrow> 65 \<le> c \<and> c \<le> 90"

definition is_lower_letter :: "nat \<Rightarrow> bool" where
  "is_lower_letter c \<longleftrightarrow> 97 \<le> c \<and> c \<le> 122"

definition ascii_upper1 :: "nat \<Rightarrow> nat" where
  "ascii_upper1 c = (if is_lower_letter c then c - 32 else c)"

definition ascii_lower1 :: "nat \<Rightarrow> nat" where
  "ascii_lower1 c = (if is_upper_letter c then c + 32 else c)"

definition ascii_text :: "pystr \<Rightarrow> bool" where
  "ascii_text s \<longleftrightarrow> list_all (\<lambda>c. c < 128) s"

text \<open>
  What the theorems about \<open>decrypt\<close> assume of the library: on a string of ASCII
  characters, \<open>upper\<close> and \<open>lower\<close> change the letters a-z and A-Z character by
  character, and \<open>isupper\<close> holds when the string has an upper-case letter and no
  lower-case letter. Python's methods satisfy this.
\<close>

definition ascii_case :: "pylib \<Rightarrow> bool" where
  "ascii_case L \<longleftrightarrow>
     (\<forall>s. ascii_text s \<longrightarrow>
        str_upper L s = map ascii_upper1 s \<and>
        str_lower L s = map ascii_lower1 s \<and>
        str_isupper L s = (list_ex is_upper_letter s \<and> \<not> list_ex is_lower_letter s))"

subsection \<open>Substitution keys\<close>

text \<open>
  The one-character strings \<open>"A"\<close> ... \<open>"Z"\<close>. A key mapping is valid when its keys
  are these 26 strings, each once, and so are its values: a total bijection over the
  alphabet. The inverse key swaps each pair.
\<close>

definition letters :: "pystr list" where
  "letters = map (\<lambda>c. [c]) alphabet"

definition valid_key :: "(pystr, pystr) dict \<Rightarrow> bool" where
  "valid_key m \<longleftrightarrow>
     distinct (map fst m) \<and> set (map fst m) = set letters \<and>
     distinct (map snd m) \<and> set (map snd m) = set letters"

definition inverse_key :: "(pystr, pystr) dict \<Rightarrow> (pystr, pystr) dict" where
  "inverse_key m = map (\<lambda>(k, v). (v, k)) m"

text \<open>
  The same in HOL's own notions: the keys are distinct, the dict is defined on exactly
  the 26 letters (no omissions), and it maps them one-to-one onto the 26 letters (no
  collisions).
\<close>

definition key_bijection :: "(pystr, pystr) dict \<Rightarrow> bool" where
  "key_bijection m \<longleftrightarrow>
     distinct (map fst m) \<and> dom (map_of m) = set letters \<and>
     bij_betw (\<lambda>k. the (map_of m k)) (set letters) (set letters)"

text \<open>
  A character is plain when it is ASCII, or is none that \<open>decrypt\<close> looks up: its
  upper-case form is not a letter of the alphabet. U+0131 and U+017F are not plain:
  their upper-case forms are \<open>I\<close> and \<open>S\<close>.
\<close>

definition plain_char :: "pylib \<Rightarrow> nat \<Rightarrow> bool" where
  "plain_char L c \<longleftrightarrow> c < 128 \<or> str_upper L [c] \<notin> set letters"

definition plain_text :: "pylib \<Rightarrow> pystr \<Rightarrow> bool" where
  "plain_text L ct \<longleftrightarrow> list_all (plain_char L) ct"

text \<open>
  \<open>subst_char m c x\<close>: \<open>x\<close> is what one application of the key \<open>m\<close> makes of \<open>c\<close>. An
  upper-case letter becomes the upper-case letter the key gives, a lower-case letter
  the lower-case form of what the key gives for its upper-case form, and any other
  character stays.
\<close>

definition subst_char :: "(pystr, pystr) dict \<Rightarrow> nat \<Rightarrow> nat \<Rightarrow> bool" where
  "subst_char m c x \<longleftrightarrow>
     (if is_upper_letter c then is_upper_letter x \<and> map_of m [c] = Some [x]
      else if is_lower_letter c
        then is_lower_letter x \<and> map_of m [ascii_upper1 c] = Some [ascii_upper1 x]
      else x = c)"

subsection \<open>Scoring\<close>

text \<open>The overlapping windows of 4 consecutive symbols, and the value of one window.\<close>

fun windows4 :: "'a list \<Rightarrow> 'a list list" where
  "windows4 (a # b # c # d # rest) = [a, b, c, d] # windows4 (b # c # d # rest)"
| "windows4 xs = []"

definition quad_value :: "QuadgramScorer \<Rightarrow> pystr \<Rightarrow> real" where
  "quad_value self quad =
     (case map_of (log_prob self) quad of Some v \<Rightarrow> v | None \<Rightarrow> floor_s self)"

text \<open>
  The score as the specification words it: strip the characters that are not letters,
  normalize case, sum over the windows.
\<close>

definition spec_normalize :: "pylib \<Rightarrow> pystr \<Rightarrow> pystr" where
  "spec_normalize L text =
     str_upper L (filter (\<lambda>c. is_upper_letter c \<or> is_lower_letter c) text)"

definition spec_score :: "pylib \<Rightarrow> QuadgramScorer \<Rightarrow> pystr \<Rightarrow> real" where
  "spec_score L self text = sum_list (map (quad_value self) (windows4 (spec_normalize L text)))"

text \<open>The table the constructor read has positive counts, and at least one record.\<close>

definition counts_positive :: "pylib \<Rightarrow> pystr list option \<Rightarrow> bool" where
  "counts_positive L qfile \<longleftrightarrow>
     (case qfile of
        None \<Rightarrow> True
      | Some f \<Rightarrow>
          list_all (\<lambda>line. let parts = str_split L line in
                      length parts \<noteq> 2 \<or>
                      (case int_of_str L (parts ! 1) of Some n \<Rightarrow> 0 < n | None \<Rightarrow> False)) f)"

definition has_record :: "pylib \<Rightarrow> pystr list option \<Rightarrow> bool" where
  "has_record L qfile \<longleftrightarrow>
     (case qfile of
        None \<Rightarrow> True
      | Some f \<Rightarrow> list_ex (\<lambda>line. length (str_split L line) = 2) f)"

definition floor_below_table :: "QuadgramScorer \<Rightarrow> bool" where
  "floor_below_table self \<longleftrightarrow> list_all (\<lambda>(quad, v). floor_s self < v) (log_prob self)"

subsection \<open>Runs\<close>

text \<open>
  The invariant of the loop of \<open>hill_climb\<close>: the current key is the best key, and the
  best score is the score of the best key.
\<close>

definition hc_inv :: "pylib \<Rightarrow> pystr \<Rightarrow> QuadgramScorer \<Rightarrow> hc_state \<Rightarrow> bool" where
  "hc_inv L ct sc st \<longleftrightarrow>
     current_key st = best_key st \<and> current_score st = best_score st \<and>
     best_score st = new_score_of L ct sc (best_key st)"

text \<open>What restart \<open>r\<close> of \<open>solve_substitution\<close> returns, and its score.\<close>

definition run_score ::
  "pylib \<Rightarrow> pystr \<Rightarrow> QuadgramScorer \<Rightarrow> (nat \<Rightarrow> draws) \<Rightarrow> int \<Rightarrow> nat \<Rightarrow> real" where
  "run_score L ct sc rng iters r = snd (snd (hill_climb L ct sc (rng r) iters))"

definition run_result ::
  "pylib \<Rightarrow> pystr \<Rightarrow> QuadgramScorer \<Rightarrow> (nat \<Rightarrow> draws) \<Rightarrow> int \<Rightarrow> nat \<Rightarrow> solved" where
  "run_result L ct sc rng iters r =
     (case hill_climb L ct sc (rng r) iters of (decryption, mapping, s) \<Rightarrow>
        (Some decryption, Some mapping, Fin s))"

subsection \<open>Cache entries\<close>

text \<open>
  The text of a well-formed entry: an object whose \<open>decrypted_text\<close> is a string. Every
  other value is a malformed entry.
\<close>

fun entry_text :: "pyval \<Rightarrow> pystr option" where
  "entry_text (PDict d) =
     (case map_of d (str ''decrypted_text'') of Some (PStr t) \<Rightarrow> Some t | _ \<Rightarrow> None)"
| "entry_text v = None"

definition cache_lookup :: "pylib \<Rightarrow> input_file \<Rightarrow> (pystr, pyval) dict option \<Rightarrow> pyval option" where
  "cache_lookup L input cache_json =
     map_of (case cache_json of Some c \<Rightarrow> c | None \<Rightarrow> []) (compute_file_hash L input)"

section \<open>An instance of the library, for evaluation\<close>

text \<open>
  \<open>excerpt_lib\<close> is an excerpt of CPython's behaviour, used to run the model on
  concrete inputs. Its casing agrees with CPython on ASCII text and on the code points
  U+00DF, U+0131 and U+017F, whose upper-case forms are \<open>SS\<close>, \<open>I\<close> and \<open>S\<close> (and which
  are lower-case letters); other code points are left as they are. It splits and strips
  at ASCII white space and reads strings of decimal digits as integers (\<open>int\<close> accepts
  more). Its digest is a stand-in, the bytes in hexadecimal: deterministic and free of
  collisions, which is all the cache relies on. The examples stay within this range.
\<close>

definition excerpt_upper1 :: "nat \<Rightarrow> pystr" where
  "excerpt_upper1 c =
     (if c = 0x131 then [0x49] else if c = 0x17F then [0x53]
      else if c = 0xDF then [0x53, 0x53] else [ascii_upper1 c])"

definition is_space :: "nat \<Rightarrow> bool" where
  "is_space c \<longleftrightarrow> (9 \<le> c \<and> c \<le> 13) \<or> (28 \<le> c \<and> c \<le> 32)"

fun split_ws :: "pystr \<Rightarrow> pystr \<Rightarrow> pystr list" where
  "split_ws tok [] = (if tok = [] then [] else [tok])"
| "split_ws tok (c # cs) =
     (if is_space c then (if tok = [] then split_ws [] cs else tok # split_ws [] cs)
      else split_ws (tok @ [c]) cs)"

definition digits_int :: "pystr \<Rightarrow> int option" where
  "digits_int s =
     (if s \<noteq> [] \<and> list_all (\<lambda>c. 48 \<le> c \<and> c \<le> 57) s
      then Some (foldl (\<lambda>n c. 10 * n + int (c - 48)) 0 s) else None)"

definition hex_digit :: "nat \<Rightarrow> nat" where
  "hex_digit n = (if n < 10 then 48 + n else 87 + n)"

definition hex_of_bytes :: "nat list \<Rightarrow> pystr" where
  "hex_of_bytes bs = concat (map (\<lambda>b. [hex_digit (b div 16), hex_digit (b mod 16)]) bs)"

definition excerpt_lib :: pylib where
  "excerpt_lib =
     \<lparr>str_upper = (\<lambda>s. concat (map excerpt_upper1 s)),
      str_lower = map ascii_lower1,
      str_isupper = (\<lambda>s. list_ex is_upper_letter s \<and>
                           \<not> list_ex (\<lambda>c. is_lower_letter c \<or> c \<in> {0xDF, 0x131, 0x17F}) s),
      str_split = split_ws [],
      str_strip = (\<lambda>s. rev (dropWhile is_space (rev (dropWhile is_space s)))),
      int_of_str = digits_int,
      sha256_hexdigest = hex_of_bytes\<rparr>"

text \<open>The scorer the constructor builds from the built-in table.\<close>

definition fallback_scorer :: QuadgramScorer where
  "fallback_scorer =
     \<lparr>quadgrams = default_quadgrams, total_s = 57,
      log_prob = map (\<lambda>(quad, n). (quad, log 10 (real_of_int n / 57))) default_quadgrams,
      floor_s = log 10 (0.01 / 57)\<rparr>"

text \<open>
  Random choices for the examples: the shuffle leaves the alphabet with M and N
  exchanged, and every iteration draws the positions 12 and 13 (of M and N).
\<close>

definition demo_draws :: draws where
  "demo_draws = \<lparr>shuffled = str ''ABCDEFGHIJKLNMOPQRSTUVWXYZ'', sampled = (\<lambda>i. (12, 13))\<rparr>"

text \<open>
  A second run: the same shuffle, and every iteration draws the positions 0 and 2 (of A
  and C), which the text \<open>THEN\<close> does not use. \<open>demo_rng\<close> gives restart 0 these
  choices and every later restart the first ones.
\<close>

definition demo_stuck :: draws where
  "demo_stuck = \<lparr>shuffled = str ''ABCDEFGHIJKLNMOPQRSTUVWXYZ'', sampled = (\<lambda>i. (0, 2))\<rparr>"

definition demo_rng :: "nat \<Rightarrow> draws" where
  "demo_rng r = (if r = 0 then demo_stuck else demo_draws)"

definition demo_text :: pystr where
  "demo_text = str ''THEN''"

definition demo_other :: pystr where
  "demo_other = str ''THEM''"

definition demo_input :: input_file where
  "demo_input = \<lparr>raw_bytes = map of_char ''THEN'', text_of = demo_text\<rparr>"

text \<open>
  A table file with a comment line and a repeated token and the scorer built from it, a
  second input file with the bytes of the first, a cache with a well-formed entry for
  that file, and one whose entry for it has no \<open>decrypted_text\<close>.
\<close>

definition demo_table :: "pystr list" where
  "demo_table = [str ''THEN 10'', str ''# quadgram counts'', str ''THAT 7'', str ''THEN 12'']"

definition demo_scorer :: QuadgramScorer where
  "demo_scorer =
     \<lparr>quadgrams = [(str ''THEN'', 12), (str ''THAT'', 7)], total_s = 19,
      log_prob = [(str ''THEN'', log 10 (12 / 19)), (str ''THAT'', log 10 (7 / 19))],
      floor_s = log 10 (0.01 / 19)\<rparr>"

definition demo_copy :: input_file where
  "demo_copy = \<lparr>raw_bytes = map of_char ''THEN'', text_of = []\<rparr>"



section \<open>Lemmas\<close>

subsection \<open>Letters\<close>

lemma alphabet_upt: "alphabet = [65..<91]"
  by (simp add: alphabet_def upt_rec)

lemma distinct_alphabet: "distinct alphabet"
  by (simp add: alphabet_upt)

lemma length_alphabet: "length alphabet = 26"
  by (simp add: alphabet_upt)

lemma set_alphabet: "c \<in> set alphabet \<longleftrightarrow> is_upper_letter c"
  unfolding alphabet_upt set_upt is_upper_letter_def by auto

lemma in_letters: "s \<in> set letters \<longleftrightarrow> (\<exists>c. s = [c] \<and> is_upper_letter c)"
  by (auto simp: letters_def set_alphabet)

lemma letter_facts:
  "is_upper_letter x \<Longrightarrow> is_lower_letter (ascii_lower1 x)"
  "is_upper_letter x \<Longrightarrow> ascii_upper1 (ascii_lower1 x) = x"
  "is_lower_letter c \<Longrightarrow> is_upper_letter (ascii_upper1 c)"
  "is_lower_letter c \<Longrightarrow> ascii_lower1 (ascii_upper1 c) = c"
  "is_upper_letter x \<Longrightarrow> \<not> is_lower_letter x"
  "is_lower_letter x \<Longrightarrow> \<not> is_upper_letter x"
  "is_upper_letter x \<Longrightarrow> x < 128"
  "is_lower_letter x \<Longrightarrow> x < 128"
  "is_upper_letter x \<Longrightarrow> ascii_upper1 x = x"
  by (auto simp: is_upper_letter_def is_lower_letter_def ascii_upper1_def ascii_lower1_def)

lemma ascii_case_char:
  assumes "ascii_case L" "c < 128"
  shows "str_upper L [c] = [ascii_upper1 c]"
    and "str_lower L [c] = [ascii_lower1 c]"
    and "str_isupper L [c] = is_upper_letter c"
proof -
  have "ascii_text [c]" using assms(2) by (simp add: ascii_text_def)
  with assms(1) have
    "str_upper L [c] = map ascii_upper1 [c] \<and> str_lower L [c] = map ascii_lower1 [c] \<and>
     str_isupper L [c] = (list_ex is_upper_letter [c] \<and> \<not> list_ex is_lower_letter [c])"
    unfolding ascii_case_def by blast
  then show "str_upper L [c] = [ascii_upper1 c]" "str_lower L [c] = [ascii_lower1 c]"
    "str_isupper L [c] = is_upper_letter c"
    by (auto simp: letter_facts)
qed

lemma excerpt_upper_ascii:
  "ascii_text s \<Longrightarrow> concat (map excerpt_upper1 s) = map ascii_upper1 s"
  by (induction s) (auto simp: ascii_text_def excerpt_upper1_def)

lemma ascii_case_excerpt: "ascii_case excerpt_lib"
  unfolding ascii_case_def
proof (intro allI impI)
  fix s assume s: "ascii_text s"
  then have "\<not> list_ex (\<lambda>c. c \<in> {0xDF, 0x131, 0x17F}) s"
    by (auto simp: ascii_text_def list_all_iff list_ex_iff)
  then have "list_ex (\<lambda>c. is_lower_letter c \<or> c \<in> {0xDF, 0x131, 0x17F}) s
               = list_ex is_lower_letter s"
    by (auto simp: list_ex_iff)
  with s show "str_upper excerpt_lib s = map ascii_upper1 s \<and>
        str_lower excerpt_lib s = map ascii_lower1 s \<and>
        str_isupper excerpt_lib s = (list_ex is_upper_letter s \<and> \<not> list_ex is_lower_letter s)"
    by (simp add: excerpt_lib_def excerpt_upper_ascii)
qed

subsection \<open>The score as a sum over windows\<close>

lemma windows4_index:
  "windows4 xs = map (\<lambda>i. take 4 (drop i xs)) [0..<length xs - 3]"
proof (induction xs rule: windows4.induct)
  case (1 a b c d rest)
  have "[0..<length (a # b # c # d # rest) - 3] = 0 # map Suc [0..<length (b # c # d # rest) - 3]"
    by (simp add: upt_conv_Cons map_Suc_upt del: upt_Suc)
  then show ?case using 1 by (simp add: comp_def del: upt_Suc)
qed simp_all

lemma foldl_quads:
  "foldl (\<lambda>score i. let quad = g i in
             case map_of lp quad of Some v \<Rightarrow> score + v | None \<Rightarrow> score + (fl::real)) a ns
   = a + sum_list (map (\<lambda>i. case map_of lp (g i) of Some v \<Rightarrow> v | None \<Rightarrow> fl) ns)"
  by (induction ns arbitrary: a) (auto simp: Let_def split: option.splits)

lemma score_sum:
  "score L self text =
     sum_list (map (quad_value self) (windows4 (filter (\<lambda>c. c \<noteq> 32) (str_upper L text))))"
  unfolding score_def Let_def windows4_index quad_value_def
  by (simp add: foldl_quads [unfolded Let_def] comp_def del: upt_Suc)


subsection \<open>Key mappings\<close>

lemma update_fresh: "k \<notin> fst ` set al \<Longrightarrow> AList.update k v al = al @ [(k, v)]"
  by (induction al) auto

lemma foldl_update_zip:
  assumes "distinct ks" "n \<le> length ks" "n \<le> length vs"
  shows "foldl (\<lambda>m i. AList.update (ks ! i) (vs ! i) m) [] [0..<n] = zip (take n ks) (take n vs)"
  using assms
proof (induction n)
  case 0
  then show ?case by simp
next
  case (Suc n)
  then have n: "n < length ks" "n < length vs" by simp_all
  have fresh: "ks ! n \<notin> fst ` set (zip (take n ks) (take n vs))"
  proof
    assume "ks ! n \<in> fst ` set (zip (take n ks) (take n vs))"
    then have "ks ! n \<in> set (take n ks)"
      by (auto dest: set_zip_leftD)
    then obtain j where "j < n" "ks ! j = ks ! n"
      using n by (auto simp: in_set_conv_nth)
    with Suc.prems(1) n show False
      by (simp add: nth_eq_iff_index_eq)
  qed
  have "zip (take (Suc n) ks) (take (Suc n) vs) = zip (take n ks) (take n vs) @ [(ks ! n, vs ! n)]"
    using n by (simp add: take_Suc_conv_app_nth)
  with Suc fresh show ?case
    by (simp add: update_fresh)
qed

lemma shuffle_ok_length: "shuffle_ok key \<Longrightarrow> length key = 26"
proof -
  assume a: "shuffle_ok key"
  then have "length key = card (set key)"
    using distinct_card [of key] by (simp only: shuffle_ok_def)
  also have "\<dots> = card (set alphabet)"
    using a by (simp add: shuffle_ok_def)
  also have "\<dots> = 26"
    using distinct_alphabet length_alphabet by (simp add: distinct_card)
  finally show ?thesis .
qed

lemma key_mapping_zip:
  assumes "shuffle_ok key"
  shows "key_mapping key = zip (map (\<lambda>c. [c]) key) letters"
proof -
  have len: "length key = 26" using assms by (rule shuffle_ok_length)
  have d: "distinct (map (\<lambda>c. [c]) key)"
    using assms by (simp add: shuffle_ok_def distinct_map inj_on_def)
  have "key_mapping key
      = foldl (\<lambda>m i. AList.update (map (\<lambda>c. [c]) key ! i) (letters ! i) m) [] [0..<26]"
    unfolding key_mapping_def
    by (rule foldl_cong) (simp_all add: len letters_def length_alphabet)
  also have "\<dots> = zip (take 26 (map (\<lambda>c. [c]) key)) (take 26 letters)"
    by (rule foldl_update_zip) (simp_all add: d len letters_def length_alphabet)
  finally show ?thesis
    by (simp add: len letters_def length_alphabet)
qed

lemma valid_key_mapping:
  assumes "shuffle_ok key"
  shows "valid_key (key_mapping key)"
proof -
  have len: "length key = 26" using assms by (rule shuffle_ok_length)
  have l: "length letters = 26" by (simp add: letters_def length_alphabet)
  have "distinct (map (\<lambda>c. [c]) key)"
    using assms by (simp add: shuffle_ok_def distinct_map inj_on_def)
  moreover have "set (map (\<lambda>c. [c]) key) = set letters"
    using assms by (simp add: shuffle_ok_def letters_def)
  moreover have "distinct letters"
    by (simp add: letters_def distinct_map inj_on_def distinct_alphabet)
  ultimately show ?thesis
    by (simp add: valid_key_def key_mapping_zip [OF assms] len l)
qed

lemma shuffle_ok_new_key:
  assumes "shuffle_ok key" "swap_ok ab"
  shows "shuffle_ok (new_key_of key ab)"
proof -
  obtain a b where ab: "ab = (a, b)" by (cases ab)
  have "a < length key" "b < length key"
    using assms by (simp_all add: shuffle_ok_length swap_ok_def ab)
  then show ?thesis
    using assms(1) by (simp add: new_key_of_def ab shuffle_ok_def)
qed

lemma shuffle_ok_foldl:
  "shuffle_ok key \<Longrightarrow> list_all swap_ok swaps \<Longrightarrow> shuffle_ok (foldl new_key_of key swaps)"
  by (induction swaps arbitrary: key) (simp_all add: shuffle_ok_new_key)

lemma valid_key_lookup:
  assumes "valid_key m" "(k, v) \<in> set m"
  shows "map_of m k = Some v"
  using assms by (simp add: valid_key_def)

lemma valid_key_bij:
  assumes "valid_key m"
  shows "dom (map_of m) = set letters \<and>
         bij_betw (\<lambda>k. the (map_of m k)) (set letters) (set letters)"
proof -
  have keys: "fst ` set m = set letters" and vals: "snd ` set m = set letters"
    using assms by (simp_all add: valid_key_def)
  have inj_snd: "inj_on snd (set m)"
    using assms by (simp add: valid_key_def distinct_map)
  have dom: "dom (map_of m) = set letters"
    using keys by (simp add: dom_map_of_conv_image_fst)
  have inj: "inj_on (\<lambda>k. the (map_of m k)) (set letters)"
  proof (rule inj_onI)
    fix x y assume x: "x \<in> set letters" and y: "y \<in> set letters"
      and eq: "the (map_of m x) = the (map_of m y)"
    have "x \<in> fst ` set m" "y \<in> fst ` set m"
      using x y keys by simp_all
    then obtain p q where p: "p \<in> set m" "fst p = x" and q: "q \<in> set m" "fst q = y"
      by (auto simp: image_iff)
    have "map_of m x = Some (snd p)"
      using p by (intro valid_key_lookup [OF assms]) (cases p, simp)
    moreover have "map_of m y = Some (snd q)"
      using q by (intro valid_key_lookup [OF assms]) (cases q, simp)
    ultimately have "snd p = snd q" using eq by simp
    with inj_snd p(1) q(1) have "p = q" by (simp add: inj_on_def)
    then show "x = y" using p q by simp
  qed
  have "(\<lambda>k. the (map_of m k)) ` fst ` set m = snd ` set m"
  proof -
    have "\<And>p. p \<in> set m \<Longrightarrow> the (map_of m (fst p)) = snd p"
    proof -
      fix p assume "p \<in> set m"
      then have "map_of m (fst p) = Some (snd p)"
        by (intro valid_key_lookup [OF assms]) simp
      then show "the (map_of m (fst p)) = snd p" by simp
    qed
    then show ?thesis by (simp add: image_image)
  qed
  then have "(\<lambda>k. the (map_of m k)) ` set letters = set letters"
    using keys vals by simp
  with inj dom show ?thesis
    by (simp add: bij_betw_def)
qed

subsection \<open>decrypt, character by character\<close>

lemma decrypt_concat: "decrypt L ct m = concat (map (decrypt_char L m) ct)"
proof -
  have "foldl (\<lambda>result char. result @ decrypt_char L m char) acc ct
          = acc @ concat (map (decrypt_char L m) ct)" for acc
    by (induction ct arbitrary: acc) simp_all
  then show ?thesis by (simp add: decrypt_def)
qed

lemma decrypt_Cons: "decrypt L (c # ct) m = decrypt_char L m c @ decrypt L ct m"
  by (simp add: decrypt_concat)

lemma decrypt_Nil: "decrypt L [] m = []"
  by (simp add: decrypt_concat)

lemma valid_key_inverse: "valid_key m \<Longrightarrow> valid_key (inverse_key m)"
  by (simp add: valid_key_def inverse_key_def comp_def case_prod_unfold)

lemma inverse_key_lookup:
  assumes "valid_key m" "map_of m k = Some v"
  shows "map_of (inverse_key m) v = Some k"
proof -
  have "(k, v) \<in> set m" using assms(2) by (rule map_of_SomeD)
  then have "(v, k) \<in> set (inverse_key m)"
    by (force simp: inverse_key_def)
  with valid_key_inverse [OF assms(1)] show ?thesis
    by (rule valid_key_lookup)
qed

lemma valid_key_letter:
  assumes "valid_key m" "is_upper_letter c"
  shows "\<exists>x. is_upper_letter x \<and> map_of m [c] = Some [x]"
proof -
  have "[c] \<in> fst ` set m"
    using assms by (simp add: valid_key_def in_letters)
  then obtain v where v: "([c], v) \<in> set m" by (auto simp: image_iff)
  then have "v \<in> snd ` set m" by force
  then have "v \<in> set letters" using assms(1) by (simp add: valid_key_def)
  then obtain x where "v = [x]" "is_upper_letter x" by (auto simp: in_letters)
  with v valid_key_lookup [OF assms(1)] show ?thesis by blast
qed

lemma valid_key_no_letter:
  assumes "valid_key m" "s \<notin> set letters"
  shows "map_of m s = None"
  using assms by (simp add: valid_key_def map_of_eq_None_iff)

lemma no_letter_upper:
  assumes L: "ascii_case L" and c: "plain_char L c"
    and other: "\<not> is_upper_letter c" "\<not> is_lower_letter c"
  shows "str_upper L [c] \<notin> set letters"
proof (cases "c < 128")
  case True
  then have "str_upper L [c] = [c]"
    using L other by (simp add: ascii_case_char ascii_upper1_def)
  then show ?thesis using other by (simp add: in_letters)
next
  case False
  then show ?thesis using c by (simp add: plain_char_def)
qed

lemma decrypt_char_subst:
  assumes L: "ascii_case L" and m: "valid_key m" and c: "plain_char L c"
  shows "\<exists>x. decrypt_char L m c = [x] \<and> subst_char m c x"
proof -
  consider (up) "is_upper_letter c" | (low) "is_lower_letter c"
    | (other) "\<not> is_upper_letter c" "\<not> is_lower_letter c" by blast
  then show ?thesis
  proof cases
    case up
    then have f: "str_upper L [c] = [c]" "str_isupper L [c]"
      using L by (simp_all add: ascii_case_char letter_facts)
    from valid_key_letter [OF m up] obtain x
      where x: "is_upper_letter x" "map_of m [c] = Some [x]" by blast
    then show ?thesis using up f
      by (simp add: decrypt_char_def subst_char_def)
  next
    case low
    then have f: "str_upper L [c] = [ascii_upper1 c]" "\<not> str_isupper L [c]"
      using L by (simp_all add: ascii_case_char letter_facts)
    from low have "is_upper_letter (ascii_upper1 c)" by (simp add: letter_facts)
    from valid_key_letter [OF m this] obtain x
      where x: "is_upper_letter x" "map_of m [ascii_upper1 c] = Some [x]" by blast
    then have "str_lower L [x] = [ascii_lower1 x]"
      using L by (simp add: ascii_case_char letter_facts)
    then show ?thesis using low f x
      by (simp add: decrypt_char_def subst_char_def letter_facts)
  next
    case other
    have "map_of m (str_upper L [c]) = None"
      using m no_letter_upper [OF L c other] by (rule valid_key_no_letter)
    then show ?thesis using other
      by (simp add: decrypt_char_def subst_char_def)
  qed
qed

lemma decrypt_char_round_trip:
  assumes L: "ascii_case L" and m: "valid_key m" and c: "plain_char L c"
    and x: "decrypt_char L m c = [x]"
  shows "decrypt_char L (inverse_key m) x = [c]"
proof -
  from decrypt_char_subst [OF L m c] x have s: "subst_char m c x" by simp
  consider (up) "is_upper_letter c" | (low) "is_lower_letter c"
    | (other) "\<not> is_upper_letter c" "\<not> is_lower_letter c" by blast
  then show ?thesis
  proof cases
    case up
    with s have x': "is_upper_letter x" "map_of m [c] = Some [x]"
      by (simp_all add: subst_char_def)
    then have "str_upper L [x] = [x]" "str_isupper L [x]"
      using L by (simp_all add: ascii_case_char letter_facts)
    moreover have "map_of (inverse_key m) [x] = Some [c]"
      using m x'(2) by (rule inverse_key_lookup)
    ultimately show ?thesis by (simp add: decrypt_char_def)
  next
    case low
    with s have x': "is_lower_letter x" "map_of m [ascii_upper1 c] = Some [ascii_upper1 x]"
      by (simp_all add: subst_char_def letter_facts)
    then have "str_upper L [x] = [ascii_upper1 x]" "\<not> str_isupper L [x]"
      using L by (simp_all add: ascii_case_char letter_facts)
    moreover have "map_of (inverse_key m) [ascii_upper1 x] = Some [ascii_upper1 c]"
      using m x'(2) by (rule inverse_key_lookup)
    moreover have "str_lower L [ascii_upper1 c] = [c]"
      using L low by (simp add: ascii_case_char letter_facts)
    ultimately show ?thesis by (simp add: decrypt_char_def)
  next
    case other
    with s have "x = c" by (simp add: subst_char_def)
    moreover have "map_of (inverse_key m) (str_upper L [c]) = None"
      using valid_key_inverse [OF m] no_letter_upper [OF L c other]
      by (rule valid_key_no_letter)
    ultimately show ?thesis by (simp add: decrypt_char_def)
  qed
qed

lemma decrypt_subst_round_trip:
  assumes L: "ascii_case L" and m: "valid_key m"
  shows "plain_text L ct \<Longrightarrow>
         decrypt L (decrypt L ct m) (inverse_key m) = ct \<and>
         list_all2 (subst_char m) ct (decrypt L ct m)"
proof (induction ct)
  case Nil
  then show ?case by (simp add: decrypt_Nil)
next
  case (Cons c ct)
  then have c: "plain_char L c" and ct: "plain_text L ct"
    by (simp_all add: plain_text_def)
  from decrypt_char_subst [OF L m c] obtain x
    where x: "decrypt_char L m c = [x]" "subst_char m c x" by blast
  have "decrypt_char L (inverse_key m) x = [c]"
    using L m c x(1) by (rule decrypt_char_round_trip)
  with Cons.IH [OF ct] x show ?case
    by (simp add: decrypt_Cons)
qed



lemma ascii_plain: "ascii_text ct \<Longrightarrow> plain_text L ct"
  by (simp add: ascii_text_def plain_text_def plain_char_def list_all_iff)


subsection \<open>The loop of hill_climb\<close>

lemma hc_loop_0: "hc_loop L ct sc d 0 = hc_init L ct sc d"
  by (simp add: hc_loop_def)

lemma hc_loop_Suc:
  "hc_loop L ct sc d (Suc n) = hc_step L ct sc (hc_loop L ct sc d n) (sampled d n)"
  by (simp add: hc_loop_def)

lemma hc_step_cases:
  "hc_step L ct sc st ab =
     (if new_score_of L ct sc (new_key_of (current_key st) ab) > current_score st
      then (if new_score_of L ct sc (new_key_of (current_key st) ab) > best_score st
            then \<lparr>best_key = new_key_of (current_key st) ab,
                  best_score = new_score_of L ct sc (new_key_of (current_key st) ab),
                  current_key = new_key_of (current_key st) ab,
                  current_score = new_score_of L ct sc (new_key_of (current_key st) ab)\<rparr>
            else st\<lparr>current_key := new_key_of (current_key st) ab,
                    current_score := new_score_of L ct sc (new_key_of (current_key st) ab)\<rparr>)
      else st)"
  by (simp add: hc_step_def Let_def)

lemma hc_inv_init: "hc_inv L ct sc (hc_init L ct sc d)"
  by (simp add: hc_inv_def hc_init_def new_score_of_def Let_def)

lemma hc_inv_step: "hc_inv L ct sc st \<Longrightarrow> hc_inv L ct sc (hc_step L ct sc st ab)"
  by (simp add: hc_inv_def hc_step_cases)

lemma hc_inv_loop: "hc_inv L ct sc (hc_loop L ct sc d n)"
  by (induction n) (simp_all add: hc_loop_0 hc_loop_Suc hc_inv_init hc_inv_step)

lemma hc_step_best_mono: "best_score st \<le> best_score (hc_step L ct sc st ab)"
  by (simp add: hc_step_cases)

lemma hc_loop_best_mono:
  "m \<le> n \<Longrightarrow> best_score (hc_loop L ct sc d m) \<le> best_score (hc_loop L ct sc d n)"
proof (induction n)
  case 0
  then show ?case by simp
next
  case (Suc n)
  show ?case
  proof (cases "m = Suc n")
    case True
    then show ?thesis by simp
  next
    case False
    with Suc have "best_score (hc_loop L ct sc d m) \<le> best_score (hc_loop L ct sc d n)"
      by simp
    also have "\<dots> \<le> best_score (hc_loop L ct sc d (Suc n))"
      by (simp add: hc_loop_Suc hc_step_best_mono)
    finally show ?thesis .
  qed
qed

lemma hc_step_bounds_candidate:
  assumes "hc_inv L ct sc st"
  shows "new_score_of L ct sc (new_key_of (current_key st) ab)
           \<le> best_score (hc_step L ct sc st ab)"
  using assms by (simp add: hc_inv_def hc_step_cases)

lemma hc_loop_bounds_candidates:
  assumes "i < n"
  shows "new_score_of L ct sc (new_key_of (current_key (hc_loop L ct sc d i)) (sampled d i))
           \<le> best_score (hc_loop L ct sc d n)"
proof -
  have "new_score_of L ct sc (new_key_of (current_key (hc_loop L ct sc d i)) (sampled d i))
          \<le> best_score (hc_loop L ct sc d (Suc i))"
    by (simp add: hc_loop_Suc hc_step_bounds_candidate hc_inv_loop)
  also have "\<dots> \<le> best_score (hc_loop L ct sc d n)"
    using assms by (intro hc_loop_best_mono) simp
  finally show ?thesis .
qed

lemma hc_loop_best_attained:
  "best_key (hc_loop L ct sc d n) = shuffled d \<or>
   (\<exists>i<n. best_key (hc_loop L ct sc d n)
            = new_key_of (current_key (hc_loop L ct sc d i)) (sampled d i))"
proof (induction n)
  case 0
  then show ?case by (simp add: hc_loop_0 hc_init_def Let_def)
next
  case (Suc n)
  let ?st = "hc_loop L ct sc d n"
  let ?k = "new_key_of (current_key ?st) (sampled d n)"
  have "best_key (hc_loop L ct sc d (Suc n)) = ?k \<or>
        best_key (hc_loop L ct sc d (Suc n)) = best_key ?st"
    by (simp add: hc_loop_Suc hc_step_cases)
  then show ?case
  proof
    assume "best_key (hc_loop L ct sc d (Suc n)) = ?k"
    then show ?thesis by blast
  next
    assume "best_key (hc_loop L ct sc d (Suc n)) = best_key ?st"
    with Suc show ?thesis by (metis less_Suc_eq)
  qed
qed

lemma hc_loop_keys_ok:
  assumes "draws_ok d n" "i \<le> n"
  shows "shuffle_ok (current_key (hc_loop L ct sc d i)) \<and>
         shuffle_ok (best_key (hc_loop L ct sc d i))"
  using assms(2)
proof (induction i)
  case 0
  then show ?case using assms(1)
    by (simp add: hc_loop_0 hc_init_def Let_def draws_ok_def)
next
  case (Suc i)
  then have ih: "shuffle_ok (current_key (hc_loop L ct sc d i))"
    "shuffle_ok (best_key (hc_loop L ct sc d i))" by simp_all
  have "swap_ok (sampled d i)"
    using assms(1) Suc.prems by (simp add: draws_ok_def list_all_iff)
  with ih(1) have "shuffle_ok (new_key_of (current_key (hc_loop L ct sc d i)) (sampled d i))"
    by (rule shuffle_ok_new_key)
  with ih show ?case
    by (simp add: hc_loop_Suc hc_step_cases)
qed

subsection \<open>The loop of solve_substitution\<close>

lemma solve_step_run:
  "solve_step L ct sc rng iters best r =
     (if float_gt (run_score L ct sc rng iters r) (snd (snd best))
      then run_result L ct sc rng iters r else best)"
  by (simp add: solve_step_def run_score_def run_result_def split: prod.splits)

lemma snd_run_result:
  "snd (snd (run_result L ct sc rng iters r)) = Fin (run_score L ct sc rng iters r)"
  by (simp add: run_result_def run_score_def split: prod.splits)

lemma solve_foldl_first_max:
  "\<exists>j\<le>n. foldl (solve_step L ct sc rng iters) (None, None, NegInf) [0..<Suc n]
              = run_result L ct sc rng iters j \<and>
           (\<forall>i\<le>n. run_score L ct sc rng iters i \<le> run_score L ct sc rng iters j) \<and>
           (\<forall>i<j. run_score L ct sc rng iters i < run_score L ct sc rng iters j)"
proof (induction n)
  case 0
  show ?case by (simp add: solve_step_run)
next
  case (Suc n)
  let ?s = "run_score L ct sc rng iters"
  let ?f = "\<lambda>k. foldl (solve_step L ct sc rng iters) (None, None, NegInf) [0..<k]"
  from Suc obtain j where j: "j \<le> n" "?f (Suc n) = run_result L ct sc rng iters j"
    "\<forall>i\<le>n. ?s i \<le> ?s j" "\<forall>i<j. ?s i < ?s j" by blast
  have step: "?f (Suc (Suc n)) =
      (if ?s (Suc n) > ?s j then run_result L ct sc rng iters (Suc n)
       else run_result L ct sc rng iters j)"
    using j(2) by (simp add: solve_step_run snd_run_result)
  show ?case
  proof (cases "?s (Suc n) > ?s j")
    case True
    have "\<forall>i\<le>Suc n. ?s i \<le> ?s (Suc n)"
    proof (intro allI impI)
      fix i assume "i \<le> Suc n"
      then consider "i = Suc n" | "i \<le> n" by linarith
      then show "?s i \<le> ?s (Suc n)"
      proof cases
        case 1 then show ?thesis by simp
      next
        case 2 with j(3) True show ?thesis by force
      qed
    qed
    moreover have "\<forall>i<Suc n. ?s i < ?s (Suc n)"
    proof (intro allI impI)
      fix i assume "i < Suc n"
      then have "?s i \<le> ?s j" using j(3) by simp
      with True show "?s i < ?s (Suc n)" by simp
    qed
    ultimately show ?thesis using step True by (intro exI [of _ "Suc n"]) simp
  next
    case False
    have "\<forall>i\<le>Suc n. ?s i \<le> ?s j"
    proof (intro allI impI)
      fix i assume "i \<le> Suc n"
      then consider "i = Suc n" | "i \<le> n" by linarith
      then show "?s i \<le> ?s j"
      proof cases
        case 1 with False show ?thesis by simp
      next
        case 2 with j(3) show ?thesis by simp
      qed
    qed
    then show ?thesis using step False j(1,4) by (intro exI [of _ j]) simp
  qed
qed

lemma solve_substitution_Some:
  assumes "1 \<le> restarts"
  shows "\<exists>d m s. solve_substitution L ct sc rng restarts iters = (Some d, Some m, Fin s)"
proof -
  from assms obtain n where n: "nat restarts = Suc n"
    by (cases "nat restarts") simp_all
  from solve_foldl_first_max [of n L ct sc rng iters] obtain j where
    "solve_substitution L ct sc rng restarts iters = run_result L ct sc rng iters j"
    unfolding solve_substitution_def n by blast
  then show ?thesis
    by (simp add: run_result_def split: prod.splits)
qed

subsection \<open>The constructor on a table of positive counts\<close>

lemma update_values: "set (AList.update k v al) \<subseteq> insert (k, v) (set al)"
  by (induction al) auto

lemma update_not_Nil: "AList.update k v al \<noteq> []"
  by (cases al) auto

lemma load_lines_positive:
  assumes "counts_positive L (Some f)" "\<forall>(k, n)\<in>set q. 0 < n"
  shows "\<exists>q'. load_lines L q f = Inr q' \<and> (\<forall>(k, n)\<in>set q'. 0 < n) \<and>
              (q' = [] \<longleftrightarrow> q = [] \<and> \<not> has_record L (Some f))"
  using assms
proof (induction f arbitrary: q)
  case Nil
  then show ?case by (simp add: has_record_def)
next
  case (Cons line f)
  from Cons.prems(1) have f: "counts_positive L (Some f)"
    by (simp add: counts_positive_def)
  show ?case
  proof (cases "length (str_split L line) = 2")
    case False
    with Cons.IH [OF f Cons.prems(2)] show ?thesis
      by (simp add: has_record_def)
  next
    case True
    with Cons.prems(1) obtain n where n: "int_of_str L (str_split L line ! 1) = Some n" "0 < n"
      by (auto simp: counts_positive_def Let_def split: option.splits)
    let ?q = "AList.update (str_split L line ! 0) n q"
    have "\<forall>(k, n)\<in>set ?q. 0 < n"
      using update_values [of "str_split L line ! 0" n q] Cons.prems(2) n(2) by auto
    from Cons.IH [OF f this] obtain q' where
      "load_lines L ?q f = Inr q'" "\<forall>(k, n)\<in>set q'. 0 < n" "q' \<noteq> []"
      using update_not_Nil [of "str_split L line ! 0" n q] by blast
    then show ?thesis using True n by (simp add: has_record_def)
  qed
qed

lemma floor_less_log_prob:
  assumes "0 < t" "0 < n"
  shows "log 10 (0.01 / real_of_int t) < log 10 (real_of_int n / real_of_int t)"
proof -
  have "0.01 < real_of_int n" using assms(2) by simp
  then have lt: "0.01 / real_of_int t < real_of_int n / real_of_int t"
    by (rule divide_strict_right_mono) (use assms(1) in simp)
  have pos: "0 < 0.01 / real_of_int t" "0 < real_of_int n / real_of_int t"
    using assms by simp_all
  have "(1::real) < 10" by simp
  from log_less_cancel_iff [OF this pos] lt show ?thesis by (rule iffD2)
qed

lemma log_probs_above:
  assumes "0 < t" "\<forall>(k, n)\<in>set q. 0 < n" "\<forall>(k, v)\<in>set lp. fl < v"
    and fl: "\<And>n. 0 < n \<Longrightarrow> fl < log 10 (real_of_int n / real_of_int t)"
  shows "\<exists>lp'. log_probs t lp q = Inr lp' \<and> (\<forall>(k, v)\<in>set lp'. fl < v)"
  using assms(2,3)
proof (induction q arbitrary: lp)
  case Nil
  then show ?case by simp
next
  case (Cons p q)
  obtain key n where p: "p = (key, n)" by (cases p)
  with Cons.prems have n: "0 < n" by simp
  have pos: "\<not> real_of_int n / real_of_int t \<le> 0"
    using n assms(1) by (simp add: not_le)
  let ?lp = "AList.update key (log 10 (real_of_int n / real_of_int t)) lp"
  have "\<forall>(k, v)\<in>set ?lp. fl < v"
    using update_values [of key "log 10 (real_of_int n / real_of_int t)" lp] Cons.prems(2) fl [OF n]
    by auto
  moreover have "\<forall>(k, n)\<in>set q. 0 < n" using Cons.prems(1) by simp
  ultimately obtain lp' where
    "log_probs t ?lp q = Inr lp'" "\<forall>(k, v)\<in>set lp'. fl < v"
    using Cons.IH by blast
  then show ?case using p pos assms(1) by simp
qed

lemma sum_list_positive:
  "q \<noteq> [] \<Longrightarrow> \<forall>(k, n)\<in>set q. 0 < n \<Longrightarrow> 0 < sum_list (map snd q)" for q :: "('a \<times> int) list"
proof (induction q)
  case Nil
  then show ?case by simp
next
  case (Cons p q)
  then have "0 < snd p" by (cases p) simp
  moreover have "0 \<le> sum_list (map snd q)"
    using Cons.prems(2) by (intro sum_list_nonneg) auto
  ultimately show ?case by simp
qed

lemma init_of_quadgrams:
  assumes "q \<noteq> []" "\<forall>(k, n)\<in>set q. 0 < n"
    and "(case qfile of Some f \<Rightarrow> load_lines L [] f | None \<Rightarrow> Inr default_quadgrams) = Inr q"
  shows "\<exists>s. QuadgramScorer_init L qfile = Inr s \<and>
             floor_s s = log 10 (0.01 / real_of_int (total_s s)) \<and> floor_below_table s"
proof -
  let ?t = "sum_list (map snd q)"
  have t: "0 < ?t" using assms(1,2) by (rule sum_list_positive)
  have "\<exists>lp. log_probs ?t [] q = Inr lp \<and>
          (\<forall>(k, v)\<in>set lp. log 10 (0.01 / real_of_int ?t) < v)"
    by (rule log_probs_above [OF t assms(2)]) (simp_all only: floor_less_log_prob [OF t], simp)
  then obtain lp where
    lp: "log_probs ?t [] q = Inr lp" "\<forall>(k, v)\<in>set lp. log 10 (0.01 / real_of_int ?t) < v"
    by blast
  have "\<not> 0.01 / real_of_int ?t \<le> 0" using t by simp
  then have "QuadgramScorer_init L qfile =
      Inr \<lparr>quadgrams = q, total_s = ?t, log_prob = lp,
           floor_s = log 10 (0.01 / real_of_int ?t)\<rparr>"
    using assms(3) lp(1) t by (simp add: QuadgramScorer_init_def Let_def)
  moreover have "floor_below_table \<lparr>quadgrams = q, total_s = ?t, log_prob = lp,
           floor_s = log 10 (0.01 / real_of_int ?t)\<rparr>"
    using lp(2) by (simp add: floor_below_table_def list_all_iff)
  ultimately show ?thesis by simp
qed

lemma init_empty_table:
  assumes "\<not> has_record L (Some f)"
  shows "QuadgramScorer_init L (Some f) = Inl ZeroDivisionError"
proof -
  have "load_lines L q f = Inr q" for q
    using assms by (induction f arbitrary: q) (simp_all add: has_record_def)
  then show ?thesis
    by (simp add: QuadgramScorer_init_def)
qed

lemma init_positive_table:
  assumes "counts_positive L qfile" "has_record L qfile"
  shows "\<exists>s. QuadgramScorer_init L qfile = Inr s \<and>
             floor_s s = log 10 (0.01 / real_of_int (total_s s)) \<and> floor_below_table s"
proof (cases qfile)
  case None
  have "default_quadgrams \<noteq> []" "\<forall>(k, n)\<in>set default_quadgrams. 0 < n"
    by (simp_all add: default_quadgrams_def)
  then show ?thesis
    by (rule init_of_quadgrams) (simp add: None)
next
  case (Some f)
  from load_lines_positive [of L f "[]"] assms obtain q where
    q: "load_lines L [] f = Inr q" "\<forall>(k, n)\<in>set q. 0 < n" "q \<noteq> []"
    unfolding Some by auto
  from q(3,2) show ?thesis
    by (rule init_of_quadgrams) (simp add: Some q(1))
qed

lemma fallback_init: "QuadgramScorer_init L None = Inr fallback_scorer"
  by (simp add: QuadgramScorer_init_def fallback_scorer_def default_quadgrams_def Let_def)

subsection \<open>main on a hit and on a miss\<close>

lemma main_hit:
  assumes "cache_lookup L input cache_json = Some e"
  shows "main L input q cache_json rng =
     (case getitem e (str ''decrypted_text'') of
        Inl err \<Rightarrow> Inl err
      | Inr v \<Rightarrow> (case write_text v of
                   Inl err \<Rightarrow> Inl err
                 | Inr out \<Rightarrow> Inr \<lparr>cache_file = cache_json, output_file = out, solve_calls = 0\<rparr>))"
  using assms by (simp add: main_def cache_lookup_def Let_def)

lemma getitem_entry_text:
  "(case getitem e (str ''decrypted_text'') of
      Inl err \<Rightarrow> Inl err
    | Inr v \<Rightarrow> (case write_text v of Inl err \<Rightarrow> Inl err | Inr out \<Rightarrow> Inr (f out)))
   = (case entry_text e of
        Some t \<Rightarrow> Inr (f t)
      | None \<Rightarrow> (case getitem e (str ''decrypted_text'') of
                   Inl err \<Rightarrow> Inl err | Inr v \<Rightarrow> Inl TypeError))"
  by (cases e; simp split: option.splits pyval.splits)

lemma main_hit_entry:
  assumes "cache_lookup L input cache_json = Some e"
  shows "main L input q cache_json rng =
     (case entry_text e of
        Some t \<Rightarrow> Inr \<lparr>cache_file = cache_json, output_file = t, solve_calls = 0\<rparr>
      | None \<Rightarrow> (case getitem e (str ''decrypted_text'') of
                   Inl err \<Rightarrow> Inl err | Inr v \<Rightarrow> Inl TypeError))"
  unfolding main_hit [OF assms] by (rule getitem_entry_text)

lemma main_miss:
  assumes "cache_lookup L input cache_json = None"
    and "QuadgramScorer_init L q = Inr sc"
  shows "\<exists>t m s. solve_substitution L (str_strip L (text_of input)) sc rng 20 1000
                   = (Some t, Some m, Fin s) \<and>
          main L input q cache_json rng =
            Inr \<lparr>cache_file = Some (AList.update (compute_file_hash L input)
                     (PDict [(str ''decrypted_text'', PStr t),
                             (str ''mapping'', opt_mapping (Some m)),
                             (str ''score'', PNum (Fin s))])
                     (case cache_json of Some c \<Rightarrow> c | None \<Rightarrow> [])),
                 output_file = t, solve_calls = 1\<rparr>"
proof -
  have "(1::int) \<le> 20" by simp
  from solve_substitution_Some [OF this, of L "str_strip L (text_of input)" sc rng 1000]
  obtain t m s where
    "solve_substitution L (str_strip L (text_of input)) sc rng 20 1000 = (Some t, Some m, Fin s)"
    by blast
  then show ?thesis
    using assms by (simp add: main_def cache_lookup_def Let_def)
qed

lemma cache_lookup_same_bytes:
  "raw_bytes input2 = raw_bytes input1 \<Longrightarrow>
     cache_lookup L input2 cache_json = cache_lookup L input1 cache_json"
  by (simp add: cache_lookup_def compute_file_hash_def)

lemma main_miss_scorer:
  assumes "main L input q cache_json rng = Inr r" "cache_lookup L input cache_json = None"
  shows "\<exists>sc. QuadgramScorer_init L q = Inr sc"
proof (cases "QuadgramScorer_init L q")
  case (Inl err)
  with assms show ?thesis
    by (simp add: main_def cache_lookup_def Let_def)
next
  case (Inr sc)
  then show ?thesis by simp
qed

lemma main_miss_result:
  assumes r: "main L input q cache_json rng = Inr r"
    and miss: "cache_lookup L input cache_json = None"
  shows "solve_calls r = 1 \<and>
         (\<exists>e. cache_lookup L input (cache_file r) = Some e \<and>
              entry_text e = Some (output_file r))"
proof -
  from main_miss_scorer [OF r miss] obtain sc where sc: "QuadgramScorer_init L q = Inr sc" ..
  from main_miss [OF miss sc, of rng] obtain t m s where
    "main L input q cache_json rng =
       Inr \<lparr>cache_file = Some (AList.update (compute_file_hash L input)
                     (PDict [(str ''decrypted_text'', PStr t),
                             (str ''mapping'', opt_mapping (Some m)),
                             (str ''score'', PNum (Fin s))])
                     (case cache_json of Some c \<Rightarrow> c | None \<Rightarrow> [])),
            output_file = t, solve_calls = 1\<rparr>"
    by blast
  with r have r': "r = \<lparr>cache_file = Some (AList.update (compute_file_hash L input)
                     (PDict [(str ''decrypted_text'', PStr t),
                             (str ''mapping'', opt_mapping (Some m)),
                             (str ''score'', PNum (Fin s))])
                     (case cache_json of Some c \<Rightarrow> c | None \<Rightarrow> [])),
            output_file = t, solve_calls = 1\<rparr>"
    by simp
  show ?thesis
    unfolding r' by (simp add: cache_lookup_def update_conv' del: opt_mapping.simps)
qed

lemma main_hit_result:
  assumes r: "main L input q cache_json rng = Inr r"
    and hit: "cache_lookup L input cache_json = Some e"
  shows "cache_file r = cache_json \<and> entry_text e = Some (output_file r) \<and> solve_calls r = 0"
proof (cases "entry_text e")
  case None
  with r show ?thesis
    unfolding main_hit_entry [OF hit] by (simp split: sum.splits)
next
  case (Some t)
  with r show ?thesis
    unfolding main_hit_entry [OF hit] by auto
qed

lemma main_leaves_entry:
  assumes "main L input q cache_json rng = Inr r"
  shows "\<exists>e. cache_lookup L input (cache_file r) = Some e \<and> entry_text e = Some (output_file r)"
proof (cases "cache_lookup L input cache_json")
  case (Some e)
  from main_hit_result [OF assms Some] Some show ?thesis by simp
next
  case None
  from main_miss_result [OF assms None] show ?thesis by simp
qed

subsection \<open>Further facts about keys and texts\<close>

lemma key_bijection_shuffle: "shuffle_ok key \<Longrightarrow> key_bijection (key_mapping key)"
  using valid_key_bij [OF valid_key_mapping, of key] valid_key_mapping [of key]
  by (simp add: key_bijection_def valid_key_def)


lemma subst_char_plain:
  "subst_char m c x \<Longrightarrow> plain_char L c \<Longrightarrow> plain_char L x"
  by (auto simp: subst_char_def plain_char_def letter_facts split: if_splits)

lemma subst_text_plain:
  "list_all2 (subst_char m) ct xs \<Longrightarrow> plain_text L ct \<Longrightarrow> plain_text L xs"
  by (induction rule: list_all2_induct) (auto simp: plain_text_def dest: subst_char_plain)

lemma rev_alphabet_ok: "shuffle_ok (rev alphabet)"
  by (simp add: shuffle_ok_def distinct_alphabet)

subsection \<open>The examples, evaluated\<close>

lemmas eval_score = score_sum quad_value_def fallback_scorer_def default_quadgrams_def
      excerpt_lib_def excerpt_upper1_def ascii_upper1_def is_lower_letter_def

lemma score_demo_text: "score excerpt_lib fallback_scorer demo_text = log 10 (10 / 57)"
  by (simp add: demo_text_def eval_score)

lemma score_demo_other: "score excerpt_lib fallback_scorer demo_other = log 10 (5 / 57)"
  by (simp add: demo_other_def eval_score)

lemma score_punct: "score excerpt_lib fallback_scorer (str ''A-B-C'') = 2 * log 10 (0.01 / 57)"
  by (simp add: eval_score)

lemma spec_score_punct: "spec_score excerpt_lib fallback_scorer (str ''A-B-C'') = 0"
  by (simp add: spec_score_def spec_normalize_def is_upper_letter_def
      excerpt_lib_def excerpt_upper1_def ascii_upper1_def is_lower_letter_def)

lemma floor_negative: "log 10 (0.01 / 57) < 0"
  by simp


lemma demo_shuffle_ok: "shuffle_ok (shuffled demo_draws)"
  by (auto simp: demo_draws_def shuffle_ok_def alphabet_def)

lemma demo_draws_ok: "draws_ok demo_draws n"
  by (simp add: draws_ok_def demo_shuffle_ok list_all_iff) (simp add: demo_draws_def swap_ok_def)


lemma demo_swap: "new_key_of (shuffled demo_draws) (12, 13) = alphabet"
  by (simp add: demo_draws_def new_key_of_def alphabet_def)

lemma demo_swap_back: "new_key_of alphabet (12, 13) = shuffled demo_draws"
  by (simp add: demo_draws_def new_key_of_def alphabet_def)

lemma decrypt_demo_0:
  "decrypt excerpt_lib demo_text (key_mapping (shuffled demo_draws)) = demo_other"
  by code_simp

lemma decrypt_demo_1:
  "decrypt excerpt_lib demo_text (key_mapping alphabet) = demo_text"
  by code_simp

lemma sampled_demo: "sampled demo_draws i = (12, 13)"
  by (simp add: demo_draws_def)

lemma hc_demo_0:
  "hc_loop excerpt_lib demo_text fallback_scorer demo_draws 0 =
     \<lparr>best_key = shuffled demo_draws, best_score = log 10 (5 / 57),
      current_key = shuffled demo_draws, current_score = log 10 (5 / 57)\<rparr>"
  by (simp add: hc_loop_0 hc_init_def Let_def decrypt_demo_0 score_demo_other)

lemma hc_demo_1:
  "hc_loop excerpt_lib demo_text fallback_scorer demo_draws (Suc 0) =
     \<lparr>best_key = alphabet, best_score = log 10 (10 / 57),
      current_key = alphabet, current_score = log 10 (10 / 57)\<rparr>"
  by (simp add: hc_loop_Suc hc_demo_0 hc_step_cases sampled_demo demo_swap new_score_of_def
      decrypt_demo_1 score_demo_text)

lemma hc_demo_2:
  "hc_loop excerpt_lib demo_text fallback_scorer demo_draws (Suc (Suc 0)) =
     \<lparr>best_key = alphabet, best_score = log 10 (10 / 57),
      current_key = alphabet, current_score = log 10 (10 / 57)\<rparr>"
  by (simp add: hc_loop_Suc [of _ _ _ _ "Suc 0"] hc_demo_1 hc_step_cases sampled_demo
      demo_swap_back new_score_of_def decrypt_demo_0 score_demo_other)

lemma hill_climb_demo:
  "hill_climb excerpt_lib demo_text fallback_scorer demo_draws 2 =
     (demo_text, key_mapping alphabet, log 10 (10 / 57))"
proof -
  have "hc_loop excerpt_lib demo_text fallback_scorer demo_draws (nat 2) =
     \<lparr>best_key = alphabet, best_score = log 10 (10 / 57),
      current_key = alphabet, current_score = log 10 (10 / 57)\<rparr>"
    using hc_demo_2 by (simp add: numeral_2_eq_2)
  then show ?thesis
    by (simp only: hill_climb_def Let_def hc_state.simps decrypt_demo_1)
qed

lemma decrypt_stuck_0:
  "decrypt excerpt_lib demo_text (key_mapping (shuffled demo_stuck)) = demo_other"
  by code_simp

lemma decrypt_stuck_1:
  "decrypt excerpt_lib demo_text (key_mapping (new_key_of (shuffled demo_stuck) (0, 2)))
     = demo_other"
  by code_simp

lemma sampled_stuck: "sampled demo_stuck i = (0, 2)"
  by (simp add: demo_stuck_def)

lemma hc_stuck_0:
  "hc_loop excerpt_lib demo_text fallback_scorer demo_stuck 0 =
     \<lparr>best_key = shuffled demo_stuck, best_score = log 10 (5 / 57),
      current_key = shuffled demo_stuck, current_score = log 10 (5 / 57)\<rparr>"
  by (simp add: hc_loop_0 hc_init_def Let_def decrypt_stuck_0 score_demo_other)

lemma hc_stuck_step:
  "hc_step excerpt_lib demo_text fallback_scorer
     \<lparr>best_key = shuffled demo_stuck, best_score = log 10 (5 / 57),
      current_key = shuffled demo_stuck, current_score = log 10 (5 / 57)\<rparr> (0, 2)
   = \<lparr>best_key = shuffled demo_stuck, best_score = log 10 (5 / 57),
      current_key = shuffled demo_stuck, current_score = log 10 (5 / 57)\<rparr>"
  by (simp add: hc_step_cases new_score_of_def decrypt_stuck_1 score_demo_other)

lemma hc_stuck_2:
  "hc_loop excerpt_lib demo_text fallback_scorer demo_stuck 2 =
     \<lparr>best_key = shuffled demo_stuck, best_score = log 10 (5 / 57),
      current_key = shuffled demo_stuck, current_score = log 10 (5 / 57)\<rparr>"
  unfolding numeral_2_eq_2
  by (simp add: hc_loop_Suc hc_stuck_0 sampled_stuck hc_stuck_step)

lemma hill_climb_stuck:
  "hill_climb excerpt_lib demo_text fallback_scorer demo_stuck 2 =
     (demo_other, key_mapping (shuffled demo_stuck), log 10 (5 / 57))"
proof -
  have "hc_loop excerpt_lib demo_text fallback_scorer demo_stuck (nat 2) =
     \<lparr>best_key = shuffled demo_stuck, best_score = log 10 (5 / 57),
      current_key = shuffled demo_stuck, current_score = log 10 (5 / 57)\<rparr>"
    using hc_stuck_2 by simp
  then show ?thesis
    by (simp only: hill_climb_def Let_def hc_state.simps decrypt_stuck_0)
qed

lemma run_score_demo:
  "run_score excerpt_lib demo_text fallback_scorer demo_rng 2 0 = log 10 (5 / 57)"
  "0 < r \<Longrightarrow> run_score excerpt_lib demo_text fallback_scorer demo_rng 2 r = log 10 (10 / 57)"
  by (simp_all add: run_score_def demo_rng_def hill_climb_stuck hill_climb_demo)

lemma run_result_demo:
  "0 < r \<Longrightarrow> run_result excerpt_lib demo_text fallback_scorer demo_rng 2 r
     = (Some demo_text, Some (key_mapping alphabet), Fin (log 10 (10 / 57)))"
  by (simp add: run_result_def demo_rng_def hill_climb_demo)

lemma demo_table_ok:
  "counts_positive excerpt_lib (Some demo_table)" "has_record excerpt_lib (Some demo_table)"
  by code_simp+

lemma demo_table_init:
  "QuadgramScorer_init excerpt_lib (Some demo_table) = Inr demo_scorer"
proof -
  have "load_lines excerpt_lib [] demo_table = Inr [(str ''THEN'', 12), (str ''THAT'', 7)]"
    by code_simp
  then show ?thesis
    by (simp add: QuadgramScorer_init_def demo_scorer_def Let_def)
qed




section \<open>The claims\<close>

text \<open>
  \<^bold>\<open>C1.\<close> For every ciphertext, scorer, iteration budget and restart count of at least 1,
  \<open>solve_substitution\<close> returns the result of one of its restarts, say restart \<open>j\<close>: no
  restart has a higher score than restart \<open>j\<close>, and every restart before \<open>j\<close> has a
  strictly lower score, so among the restarts of maximal score the first one is kept.
  In particular the returned score is at least the score of every restart. This holds
  for every outcome of the random choices.
\<close>

theorem solve_substitution_first_maximum:
  assumes "1 \<le> restarts"
  shows "\<exists>j<nat restarts.
           solve_substitution L ct sc rng restarts iters = run_result L ct sc rng iters j \<and>
           (\<forall>i<nat restarts. run_score L ct sc rng iters i \<le> run_score L ct sc rng iters j) \<and>
           (\<forall>i<j. run_score L ct sc rng iters i < run_score L ct sc rng iters j)"
proof -
  from assms obtain n where n: "nat restarts = Suc n"
    by (cases "nat restarts") simp_all
  from solve_foldl_first_max [of n L ct sc rng iters] show ?thesis
    unfolding solve_substitution_def n by (auto simp: less_Suc_eq_le)
qed

text \<open>
  Three restarts of two iterations on the ciphertext \<open>THEN\<close> with the random choices
  \<open>demo_rng\<close>: restart 0 stays on \<open>THEM\<close>, restarts 1 and 2 both reach \<open>THEN\<close> with
  the same, higher score, and the result is that of restart 1, the first of the two.
\<close>

theorem solve_substitution_first_maximum_witness:
  "(1::int) \<le> 3 \<and>
   run_score excerpt_lib demo_text fallback_scorer demo_rng 2 0 = log 10 (5 / 57) \<and>
   run_score excerpt_lib demo_text fallback_scorer demo_rng 2 1 = log 10 (10 / 57) \<and>
   run_score excerpt_lib demo_text fallback_scorer demo_rng 2 2 = log 10 (10 / 57) \<and>
   solve_substitution excerpt_lib demo_text fallback_scorer demo_rng 3 2
     = run_result excerpt_lib demo_text fallback_scorer demo_rng 2 1"
proof -
  let ?s = "run_score excerpt_lib demo_text fallback_scorer demo_rng 2"
  let ?r = "run_result excerpt_lib demo_text fallback_scorer demo_rng 2"
  have "(1::int) \<le> 3" by simp
  from solve_substitution_first_maximum [OF this, of excerpt_lib demo_text fallback_scorer
      demo_rng 2]
  obtain j where j: "j < nat 3"
    "solve_substitution excerpt_lib demo_text fallback_scorer demo_rng 3 2 = ?r j"
    "\<forall>i<nat 3. ?s i \<le> ?s j" "\<forall>i<j. ?s i < ?s j"
    by blast
  have s0: "?s 0 = log 10 (5 / 57)" and s1: "?s 1 = log 10 (10 / 57)"
    and s2: "?s 2 = log 10 (10 / 57)"
    by (simp_all add: run_score_demo)
  have "j = 1"
  proof (rule ccontr)
    assume "j \<noteq> 1"
    with j(1) consider "j = 0" | "j = 2" by force
    then show False
    proof cases
      case 1
      with j(3) have "?s 1 \<le> ?s 0" by simp
      then show False unfolding s0 s1 by simp
    next
      case 2
      with j(4) have "?s 1 < ?s 2" by simp
      then show False unfolding s1 s2 by simp
    qed
  qed
  with j(2) s0 s1 s2 show ?thesis by simp
qed

text \<open>
  \<^bold>\<open>C2.\<close> In a run of \<open>hill_climb\<close>, with \<open>hc_loop \<dots> n\<close> the state after \<open>n\<close>
  iterations: the candidate of iteration \<open>n\<close> becomes the current key when its score is
  strictly greater than the current score, and otherwise the state does not change; the
  best score never decreases; the run returns what the state after exactly
  \<open>nat max_iter\<close> iterations holds as best (the model is a total function, the loop
  makes \<open>nat max_iter\<close> steps); the returned score is the score of the returned
  decryption, the returned key is the initial key or one of the candidates, and no
  candidate the run evaluated, nor the initial key, scores higher.
\<close>

theorem hill_climb_strict_acceptance_best_tracking:
  fixes L ct sc d
  defines "S \<equiv> hc_loop L ct sc d"
  defines "cand \<equiv> \<lambda>i. new_key_of (current_key (S i)) (sampled d i)"
  defines "cand_score \<equiv> \<lambda>i. new_score_of L ct sc (cand i)"
  shows
    "(cand_score n > current_score (S n) \<longrightarrow>
        current_key (S (Suc n)) = cand n \<and> current_score (S (Suc n)) = cand_score n) \<and>
     (\<not> cand_score n > current_score (S n) \<longrightarrow> S (Suc n) = S n) \<and>
     (m \<le> n \<longrightarrow> best_score (S m) \<le> best_score (S n)) \<and>
     hill_climb L ct sc d max_iter =
       (decrypt L ct (key_mapping (best_key (S (nat max_iter)))),
        key_mapping (best_key (S (nat max_iter))),
        best_score (S (nat max_iter))) \<and>
     best_score (S (nat max_iter))
       = score L sc (decrypt L ct (key_mapping (best_key (S (nat max_iter))))) \<and>
     (best_key (S (nat max_iter)) = shuffled d \<or>
        (\<exists>i<nat max_iter. best_key (S (nat max_iter)) = cand i)) \<and>
     score L sc (decrypt L ct (key_mapping (shuffled d))) \<le> best_score (S (nat max_iter)) \<and>
     (\<forall>i<nat max_iter. cand_score i \<le> best_score (S (nat max_iter)))"
proof (intro conjI)
  show "cand_score n > current_score (S n) \<longrightarrow>
        current_key (S (Suc n)) = cand n \<and> current_score (S (Suc n)) = cand_score n"
    unfolding S_def cand_def cand_score_def by (simp add: hc_loop_Suc hc_step_cases)
  show "\<not> cand_score n > current_score (S n) \<longrightarrow> S (Suc n) = S n"
    unfolding S_def cand_def cand_score_def by (simp add: hc_loop_Suc hc_step_cases)
  show "m \<le> n \<longrightarrow> best_score (S m) \<le> best_score (S n)"
    unfolding S_def by (simp add: hc_loop_best_mono)
  show "hill_climb L ct sc d max_iter =
       (decrypt L ct (key_mapping (best_key (S (nat max_iter)))),
        key_mapping (best_key (S (nat max_iter))),
        best_score (S (nat max_iter)))"
    unfolding S_def by (simp add: hill_climb_def Let_def)
  show "best_score (S (nat max_iter))
       = score L sc (decrypt L ct (key_mapping (best_key (S (nat max_iter)))))"
    using hc_inv_loop [of L ct sc d "nat max_iter"]
    unfolding S_def by (simp add: hc_inv_def new_score_of_def Let_def)
  show "best_key (S (nat max_iter)) = shuffled d \<or>
        (\<exists>i<nat max_iter. best_key (S (nat max_iter)) = cand i)"
    unfolding S_def cand_def by (rule hc_loop_best_attained)
  have "best_score (S 0) \<le> best_score (S (nat max_iter))"
    unfolding S_def by (rule hc_loop_best_mono) simp
  then show "score L sc (decrypt L ct (key_mapping (shuffled d))) \<le> best_score (S (nat max_iter))"
    unfolding S_def by (simp add: hc_loop_0 hc_init_def Let_def)
  show "\<forall>i<nat max_iter. cand_score i \<le> best_score (S (nat max_iter))"
    unfolding S_def cand_def cand_score_def by (simp add: hc_loop_bounds_candidates)
qed

text \<open>
  A run of two iterations on \<open>THEN\<close> with the fallback scorer. The initial key
  exchanges M and N and decrypts to \<open>THEM\<close>; iteration 0 exchanges them back, scores
  higher and is accepted; iteration 1 exchanges them again, scores lower and is rejected.
\<close>

theorem hill_climb_strict_acceptance_best_tracking_witness:
  "new_score_of excerpt_lib demo_text fallback_scorer
       (new_key_of (current_key (hc_loop excerpt_lib demo_text fallback_scorer demo_draws 0))
          (sampled demo_draws 0))
     > current_score (hc_loop excerpt_lib demo_text fallback_scorer demo_draws 0) \<and>
   current_key (hc_loop excerpt_lib demo_text fallback_scorer demo_draws (Suc 0)) = alphabet \<and>
   current_score (hc_loop excerpt_lib demo_text fallback_scorer demo_draws (Suc 0))
     = log 10 (10 / 57) \<and>
   \<not> new_score_of excerpt_lib demo_text fallback_scorer
       (new_key_of (current_key (hc_loop excerpt_lib demo_text fallback_scorer demo_draws (Suc 0)))
          (sampled demo_draws (Suc 0)))
     > current_score (hc_loop excerpt_lib demo_text fallback_scorer demo_draws (Suc 0)) \<and>
   hc_loop excerpt_lib demo_text fallback_scorer demo_draws (Suc (Suc 0))
     = hc_loop excerpt_lib demo_text fallback_scorer demo_draws (Suc 0) \<and>
   best_score (hc_loop excerpt_lib demo_text fallback_scorer demo_draws 0)
     \<le> best_score (hc_loop excerpt_lib demo_text fallback_scorer demo_draws (Suc 0)) \<and>
   hill_climb excerpt_lib demo_text fallback_scorer demo_draws 2
     = (demo_text, key_mapping alphabet, log 10 (10 / 57))"
proof -
  let ?S = "hc_loop excerpt_lib demo_text fallback_scorer demo_draws"
  have up: "new_score_of excerpt_lib demo_text fallback_scorer
       (new_key_of (current_key (?S 0)) (sampled demo_draws 0)) = log 10 (10 / 57)"
    by (simp add: hc_demo_0 sampled_demo demo_swap new_score_of_def decrypt_demo_1
        score_demo_text)
  have down: "new_score_of excerpt_lib demo_text fallback_scorer
       (new_key_of (current_key (?S (Suc 0))) (sampled demo_draws (Suc 0))) = log 10 (5 / 57)"
    by (simp add: hc_demo_1 sampled_demo demo_swap_back new_score_of_def decrypt_demo_0
        score_demo_other)
  have c0: "current_score (?S 0) = log 10 (5 / 57)" by (simp add: hc_demo_0)
  have a: "new_score_of excerpt_lib demo_text fallback_scorer
       (new_key_of (current_key (?S 0)) (sampled demo_draws 0)) > current_score (?S 0)"
    unfolding up c0 by simp
  have b: "\<not> new_score_of excerpt_lib demo_text fallback_scorer
       (new_key_of (current_key (?S (Suc 0))) (sampled demo_draws (Suc 0)))
         > current_score (?S (Suc 0))"
    unfolding down by (simp add: hc_demo_1)
  note t0 = hill_climb_strict_acceptance_best_tracking
    [of excerpt_lib demo_text fallback_scorer demo_draws 0 0 2]
  note t1 = hill_climb_strict_acceptance_best_tracking
    [of excerpt_lib demo_text fallback_scorer demo_draws "Suc 0" 0 2]
  from t0 a have "current_key (?S (Suc 0))
      = new_key_of (current_key (?S 0)) (sampled demo_draws 0)"
    "current_score (?S (Suc 0)) = log 10 (10 / 57)"
    by (simp_all add: up)
  then have k: "current_key (?S (Suc 0)) = alphabet" "current_score (?S (Suc 0)) = log 10 (10 / 57)"
    by (simp_all add: hc_demo_0 sampled_demo demo_swap)
  from t1 b have s: "?S (Suc (Suc 0)) = ?S (Suc 0)" by blast
  from t1 have m: "best_score (?S 0) \<le> best_score (?S (Suc 0))" by blast
  from a k b s m hill_climb_demo show ?thesis by blast
qed

text \<open>
  \<^bold>\<open>C3\<close> (as amended). For every text and every scorer, \<open>score\<close> is the sum, over the
  overlapping windows of 4 consecutive characters of the upper-cased text without its
  space characters, of the tabulated log-probability of the window when there is one
  and of the floor otherwise. Only the space U+0020 is removed: digits, punctuation,
  line breaks and other characters that are not letters stay in the text and in its
  windows.
\<close>

theorem score_sums_windows_of_unspaced_text:
  "score L self text =
     sum_list (map (quad_value self) (windows4 (filter (\<lambda>c. c \<noteq> 32) (str_upper L text))))"
  by (rule score_sum)

theorem score_sums_windows_of_unspaced_text_witness:
  "score excerpt_lib fallback_scorer (str ''A-B-C'') = 2 * log 10 (0.01 / 57)"
  using score_sums_windows_of_unspaced_text [of excerpt_lib fallback_scorer "str ''A-B-C''"]
  by (simp add: quad_value_def fallback_scorer_def default_quadgrams_def
      excerpt_lib_def excerpt_upper1_def ascii_upper1_def is_lower_letter_def)

text \<open>
  The claim as the specification states it, that the characters that are not letters are
  stripped before the windows are taken, fails on \<open>A-B-C\<close> under the fallback scorer: the
  program scores the two windows \<open>A-B-\<close> and \<open>-B-C\<close>, stripping leaves \<open>ABC\<close> and no window.
\<close>

theorem score_keeps_punctuation_counterexample:
  "QuadgramScorer_init excerpt_lib None = Inr fallback_scorer \<and>
   score excerpt_lib fallback_scorer (str ''A-B-C'')
     \<noteq> spec_score excerpt_lib fallback_scorer (str ''A-B-C'')"
proof -
  have "score excerpt_lib fallback_scorer (str ''A-B-C'') < 0"
    unfolding score_punct using floor_negative by simp
  with spec_score_punct fallback_init [of excerpt_lib] show ?thesis
    by simp
qed




text \<open>
  \<^bold>\<open>C5\<close> (as amended). For every valid key and every ciphertext of plain characters
  (ASCII characters, and characters whose upper-case form is not one of A-Z),
  \<open>decrypt\<close> with the key followed by \<open>decrypt\<close> with the inverse key gives the
  ciphertext back, and each of the two applications replaces every ASCII letter by the
  letter the key gives, in the same case, and leaves every other character as it is.
\<close>

theorem decrypt_inverse_round_trip:
  assumes "ascii_case L" "valid_key m" "plain_text L ct"
  shows "decrypt L (decrypt L ct m) (inverse_key m) = ct \<and>
         list_all2 (subst_char m) ct (decrypt L ct m) \<and>
         list_all2 (subst_char (inverse_key m)) (decrypt L ct m) ct"
proof -
  from decrypt_subst_round_trip [OF assms]
  have rt: "decrypt L (decrypt L ct m) (inverse_key m) = ct"
    and s: "list_all2 (subst_char m) ct (decrypt L ct m)" by simp_all
  from s assms(3) have "plain_text L (decrypt L ct m)" by (rule subst_text_plain)
  from decrypt_subst_round_trip [OF assms(1) valid_key_inverse [OF assms(2)] this]
  have "list_all2 (subst_char (inverse_key m)) (decrypt L ct m)
          (decrypt L (decrypt L ct m) (inverse_key m))" by simp
  with rt s show ?thesis by simp
qed

theorem decrypt_inverse_round_trip_witness:
  "ascii_case excerpt_lib \<and> valid_key (key_mapping (rev alphabet)) \<and>
   plain_text excerpt_lib (str ''Hello, World!'') \<and>
   decrypt excerpt_lib (str ''Hello, World!'') (key_mapping (rev alphabet))
     = str ''Svool, Dliow!'' \<and>
   decrypt excerpt_lib (decrypt excerpt_lib (str ''Hello, World!'') (key_mapping (rev alphabet)))
      (inverse_key (key_mapping (rev alphabet))) = str ''Hello, World!''"
proof -
  have v: "valid_key (key_mapping (rev alphabet))"
    using rev_alphabet_ok by (rule valid_key_mapping)
  have p: "plain_text excerpt_lib (str ''Hello, World!'')"
    by (rule ascii_plain) (simp add: ascii_text_def)
  have d: "decrypt excerpt_lib (str ''Hello, World!'') (key_mapping (rev alphabet))
     = str ''Svool, Dliow!''"
    by code_simp
  from decrypt_inverse_round_trip [OF ascii_case_excerpt v p] ascii_case_excerpt v p d
  show ?thesis by blast
qed

text \<open>
  The claim as stated, for every ciphertext, fails on the one-character text U+0131
  (dotless i) under the identity key: its upper-case form is \<open>I\<close>, so \<open>decrypt\<close> looks it
  up and writes \<open>i\<close>, and the inverse key leaves \<open>i\<close>. U+017F (long s) fares the same.
\<close>

theorem dotless_i_round_trip_counterexample:
  "valid_key (key_mapping alphabet) \<and>
   decrypt excerpt_lib [0x131] (key_mapping alphabet) = str ''i'' \<and>
   decrypt excerpt_lib (decrypt excerpt_lib [0x131] (key_mapping alphabet))
      (inverse_key (key_mapping alphabet)) \<noteq> [0x131]"
proof -
  have "valid_key (key_mapping alphabet)"
    by (rule valid_key_mapping) (simp add: shuffle_ok_def distinct_alphabet)
  moreover have "decrypt excerpt_lib [0x131] (key_mapping alphabet) = str ''i''"
    by code_simp
  moreover have "decrypt excerpt_lib (str ''i'') (inverse_key (key_mapping alphabet)) = str ''i''"
    by code_simp
  ultimately show ?thesis by simp
qed

text \<open>
  \<^bold>\<open>C6.\<close> When every record of the table file has a positive count, or there is no file
  and the built-in table is used, the constructor either returns a scorer whose floor is
  \<open>log10(0.01 / total)\<close> and lies strictly below every tabulated log-probability, or the
  file has no record at all and the constructor raises ZeroDivisionError (there is then
  no scorer to speak of).
\<close>

theorem floor_below_every_tabulated:
  assumes "counts_positive L qfile"
  shows "case QuadgramScorer_init L qfile of
           Inr s \<Rightarrow> has_record L qfile \<and>
                    floor_s s = log 10 (0.01 / real_of_int (total_s s)) \<and>
                    floor_below_table s
         | Inl e \<Rightarrow> e = ZeroDivisionError \<and> \<not> has_record L qfile"
proof (cases "has_record L qfile")
  case True
  with init_positive_table [OF assms] show ?thesis by auto
next
  case False
  then obtain f where "qfile = Some f"
    by (cases qfile) (simp_all add: has_record_def)
  with False init_empty_table [of L f] show ?thesis by simp
qed

theorem floor_below_every_tabulated_witness:
  "counts_positive excerpt_lib (Some demo_table) \<and>
   QuadgramScorer_init excerpt_lib (Some demo_table) = Inr demo_scorer \<and>
   floor_s demo_scorer = log 10 (0.01 / real_of_int (total_s demo_scorer)) \<and>
   floor_below_table demo_scorer"
  using floor_below_every_tabulated [OF demo_table_ok(1)] demo_table_ok(1)
  by (simp add: demo_table_init)

text \<open>
  \<^bold>\<open>C7.\<close> Every key reached from a shuffle of the alphabet by any sequence of swaps of two
  distinct positions induces a key mapping that is a total bijection over the 26 letters.
  So do the keys of a run of \<open>hill_climb\<close> whose random choices keep the library's
  contracts: the initial key, every current key, every candidate, and the mapping the
  run returns.
\<close>

theorem search_keys_are_bijections:
  "(shuffle_ok key0 \<and> list_all swap_ok swaps \<longrightarrow>
      key_bijection (key_mapping (foldl new_key_of key0 swaps))) \<and>
   (draws_ok d (nat max_iter) \<longrightarrow>
      key_bijection (key_mapping (shuffled d)) \<and>
      (\<forall>i<nat max_iter.
         key_bijection (key_mapping (current_key (hc_loop L ct sc d i))) \<and>
         key_bijection
           (key_mapping (new_key_of (current_key (hc_loop L ct sc d i)) (sampled d i)))) \<and>
      key_bijection (fst (snd (hill_climb L ct sc d max_iter))))"
proof (intro conjI impI allI)
  assume "shuffle_ok key0 \<and> list_all swap_ok swaps"
  then show "key_bijection (key_mapping (foldl new_key_of key0 swaps))"
    by (simp add: key_bijection_shuffle shuffle_ok_foldl)
next
  assume d: "draws_ok d (nat max_iter)"
  then show "key_bijection (key_mapping (shuffled d))"
    by (simp add: key_bijection_shuffle draws_ok_def)
  from hc_loop_keys_ok [OF d order_refl, of L ct sc]
  show "key_bijection (fst (snd (hill_climb L ct sc d max_iter)))"
    by (simp add: hill_climb_def Let_def key_bijection_shuffle)
  fix i assume i: "i < nat max_iter"
  with hc_loop_keys_ok [OF d, of i L ct sc]
  have k: "shuffle_ok (current_key (hc_loop L ct sc d i))" by simp
  then show "key_bijection (key_mapping (current_key (hc_loop L ct sc d i)))"
    by (rule key_bijection_shuffle)
  have "swap_ok (sampled d i)"
    using d i by (simp add: draws_ok_def list_all_iff)
  with k have "shuffle_ok (new_key_of (current_key (hc_loop L ct sc d i)) (sampled d i))"
    by (rule shuffle_ok_new_key)
  then show "key_bijection
           (key_mapping (new_key_of (current_key (hc_loop L ct sc d i)) (sampled d i)))"
    by (rule key_bijection_shuffle)
qed

theorem search_keys_are_bijections_witness:
  "shuffle_ok (rev alphabet) \<and> list_all swap_ok [(0, 25), (3, 7), (7, 0)] \<and>
   key_bijection (key_mapping (foldl new_key_of (rev alphabet) [(0, 25), (3, 7), (7, 0)])) \<and>
   draws_ok demo_draws (nat 2) \<and>
   key_bijection (key_mapping (shuffled demo_draws)) \<and>
   key_bijection (key_mapping (new_key_of
      (current_key (hc_loop excerpt_lib demo_text fallback_scorer demo_draws 1))
      (sampled demo_draws 1))) \<and>
   key_bijection (fst (snd (hill_climb excerpt_lib demo_text fallback_scorer demo_draws 2)))"
proof -
  have s: "list_all swap_ok [(0, 25), (3, 7), (7, 0)]"
    by (simp add: swap_ok_def)
  have "(1::nat) < nat 2" by simp
  with search_keys_are_bijections
    [of "rev alphabet" "[(0, 25), (3, 7), (7, 0)]" demo_draws 2 excerpt_lib demo_text
      fallback_scorer]
    rev_alphabet_ok s demo_draws_ok [of "nat 2"]
  show ?thesis by blast
qed

text \<open>
  \<^bold>\<open>C8.\<close> Two input files with the same bytes have the same cache key. When a run of
  \<open>main\<close> returns, the cache file it leaves behind holds, under that key, an entry whose
  \<open>decrypted_text\<close> is the text the run wrote; when the key was missing the run called
  \<open>solve_substitution\<close> once. A second run on the same bytes and that cache file then
  returns the same text, leaves the cache as it is and does not call
  \<open>solve_substitution\<close>, whatever quadgram file and random choices it is given. A run
  whose key is missing does return when the scorer can be constructed. (The cache file
  the second run loads is taken to hold what the first run dumped.)
\<close>

theorem second_solve_hits_cache:
  assumes "raw_bytes input2 = raw_bytes input1"
  shows "compute_file_hash L input2 = compute_file_hash L input1 \<and>
    (\<forall>r1. main L input1 q1 cache_json rng1 = Inr r1 \<longrightarrow>
       (\<exists>e. cache_lookup L input1 (cache_file r1) = Some e \<and>
            entry_text e = Some (output_file r1)) \<and>
       (cache_lookup L input1 cache_json = None \<longrightarrow> solve_calls r1 = 1) \<and>
       main L input2 q2 (cache_file r1) rng2 =
         Inr \<lparr>cache_file = cache_file r1, output_file = output_file r1, solve_calls = 0\<rparr>) \<and>
    (cache_lookup L input1 cache_json = None \<and> (\<exists>sc. QuadgramScorer_init L q1 = Inr sc) \<longrightarrow>
       (\<exists>r1. main L input1 q1 cache_json rng1 = Inr r1))"
proof -
  have A: "compute_file_hash L input2 = compute_file_hash L input1"
    using assms by (simp add: compute_file_hash_def)
  have B: "(\<exists>e. cache_lookup L input1 (cache_file r1) = Some e \<and>
            entry_text e = Some (output_file r1)) \<and>
       (cache_lookup L input1 cache_json = None \<longrightarrow> solve_calls r1 = 1) \<and>
       main L input2 q2 (cache_file r1) rng2 =
         Inr \<lparr>cache_file = cache_file r1, output_file = output_file r1, solve_calls = 0\<rparr>"
    if r1: "main L input1 q1 cache_json rng1 = Inr r1" for r1
  proof -
    from main_leaves_entry [OF r1] obtain e where
      e: "cache_lookup L input1 (cache_file r1) = Some e" "entry_text e = Some (output_file r1)"
      by blast
    have e2: "cache_lookup L input2 (cache_file r1) = Some e"
      using e(1) cache_lookup_same_bytes [OF assms, of L "cache_file r1"] by simp
    have hit2: "main L input2 q2 (cache_file r1) rng2 =
         Inr \<lparr>cache_file = cache_file r1, output_file = output_file r1, solve_calls = 0\<rparr>"
      unfolding main_hit_entry [OF e2] e(2) by simp
    have calls: "cache_lookup L input1 cache_json = None \<longrightarrow> solve_calls r1 = 1"
      using main_miss_result [OF r1] by simp
    from e hit2 calls show ?thesis by blast
  qed
  have C: "\<exists>r1. main L input1 q1 cache_json rng1 = Inr r1"
    if "cache_lookup L input1 cache_json = None \<and> (\<exists>sc. QuadgramScorer_init L q1 = Inr sc)"
  proof -
    from that obtain sc where "cache_lookup L input1 cache_json = None"
      "QuadgramScorer_init L q1 = Inr sc" by blast
    from main_miss [OF this, of rng1] show ?thesis by blast
  qed
  from A B C show ?thesis by blast
qed

theorem second_solve_hits_cache_witness:
  "raw_bytes demo_copy = raw_bytes demo_input \<and>
   cache_lookup excerpt_lib demo_input None = None \<and>
   (\<exists>r1. main excerpt_lib demo_input None None (\<lambda>r. demo_draws) = Inr r1 \<and>
         solve_calls r1 = 1 \<and>
         main excerpt_lib demo_copy (Some []) (cache_file r1) (\<lambda>r. demo_draws
            \<lparr>shuffled := alphabet\<rparr>)
           = Inr \<lparr>cache_file = cache_file r1, output_file = output_file r1, solve_calls = 0\<rparr>)"
proof -
  have b: "raw_bytes demo_copy = raw_bytes demo_input"
    by (simp add: demo_copy_def demo_input_def)
  have m: "cache_lookup excerpt_lib demo_input None = None"
    by (simp add: cache_lookup_def)
  note t = second_solve_hits_cache [OF b, of excerpt_lib None None "\<lambda>r. demo_draws"
      "Some []" "\<lambda>r. demo_draws\<lparr>shuffled := alphabet\<rparr>"]
  have "\<exists>sc. QuadgramScorer_init excerpt_lib None = Inr sc"
    using fallback_init [of excerpt_lib] by (rule exI)
  with m t [THEN conjunct2, THEN conjunct2] obtain r1 where
    r1: "main excerpt_lib demo_input None None (\<lambda>r. demo_draws) = Inr r1" by (elim impE exE) simp_all
  from t [THEN conjunct2, THEN conjunct1, THEN spec, of r1] r1 m
  have "solve_calls r1 = 1 \<and>
    main excerpt_lib demo_copy (Some []) (cache_file r1) (\<lambda>r. demo_draws\<lparr>shuffled := alphabet\<rparr>)
       = Inr \<lparr>cache_file = cache_file r1, output_file = output_file r1, solve_calls = 0\<rparr>"
    by (elim impE conjE) simp_all
  with r1 have "\<exists>r1. main excerpt_lib demo_input None None (\<lambda>r. demo_draws) = Inr r1 \<and>
         solve_calls r1 = 1 \<and>
         main excerpt_lib demo_copy (Some []) (cache_file r1) (\<lambda>r. demo_draws
            \<lparr>shuffled := alphabet\<rparr>)
           = Inr \<lparr>cache_file = cache_file r1, output_file = output_file r1, solve_calls = 0\<rparr>"
    by (intro exI [of _ r1] conjI) simp_all
  with b m show ?thesis by (intro conjI)
qed




end
